theory Spec2Isabelle
  imports Complex_Main "HOL-Library.Word"
begin

section \<open>Data model of package jsonpath\<close>

text \<open>
  A Go \<open>rune\<close> is a code point held in an \<open>int32\<close>; every rune that occurs below
  lies between \<open>-255\<close> and \<open>0xFFFFFF\<close>, so no conversion wraps.  A path is modelled
  after \<open>[]rune(path)\<close>, as the list of its code points.  A Go \<open>string\<close> that is
  built from runes is modelled as the list of the code points it encodes.
\<close>

type_synonym rune = int

definition runes :: "string \<Rightarrow> rune list" where
  "runes s = map of_char s"

text \<open>
  \<open>string(buf)\<close> for a rune slice: a rune that is not a Unicode scalar value
  (negative, a surrogate, above \<open>0x10FFFF\<close>) is encoded as \<open>U+FFFD\<close>.
\<close>

definition go_string :: "rune list \<Rightarrow> rune list" where
  "go_string buf =
     map (\<lambda>r. if (0 \<le> r \<and> r < 0xD800) \<or> (0xDFFF < r \<and> r \<le> 0x10FFFF) then r else 0xFFFD) buf"

text \<open>\<open>src[a:b]\<close>, at the call sites, where \<open>a \<le> b \<le> len(src)\<close> has been checked.\<close>

definition slice :: "'a list \<Rightarrow> nat \<Rightarrow> nat \<Rightarrow> 'a list" where
  "slice src a b = take (b - a) (drop a src)"

datatype astType = astType_NameIndexer | astType_NumberIndexer | astType_Function

text \<open>
  Field \<open>typ\<close> is written \<open>atyp\<close> (\<open>typ\<close> is reserved here); the Go \<open>int\<close> of field
  \<open>index\<close> is the 64-bit two's complement integer of a 64-bit platform.
\<close>

record ast =
  atyp :: astType
  name :: "rune list"
  index :: "64 word"

definition NameIndexer :: "rune list \<Rightarrow> ast" where
  "NameIndexer n = \<lparr>atyp = astType_NameIndexer, name = n, index = 0\<rparr>"

definition NumberIndexer :: "64 word \<Rightarrow> ast" where
  "NumberIndexer k = \<lparr>atyp = astType_NumberIndexer, name = [], index = k\<rparr>"

definition FunctionOperand :: "rune list \<Rightarrow> ast" where
  "FunctionOperand n = \<lparr>atyp = astType_Function, name = n, index = 0\<rparr>"

datatype JSONValueType =
  Type_Invalid | Type_Null | Type_Number | Type_String | Type_Object | Type_Array

text \<open>
  The dynamic values an \<open>interface{}\<close> holds here: \<open>nil\<close>, \<open>float64\<close> (its payload
  type is the parameter \<open>'f\<close>), \<open>string\<close>, \<open>bool\<close> (the decoder yields it for
  \<open>true\<close> and \<open>false\<close>), \<open>int\<close> (what the \<open>length\<close> operand stores),
  \<open>[]interface{}\<close> and \<open>map[string]interface{}\<close>.
\<close>

datatype 'f jvalue =
    VNil
  | VFloat64 'f
  | VString "rune list"
  | VBool bool
  | VInt "64 word"
  | VSlice "'f jvalue list"
  | VMap "rune list \<Rightarrow> 'f jvalue option"

record 'f parsedJSON =
  ptyp :: JSONValueType
  pvalue :: "'f jvalue"

record CompiledJSONPath =
  asts :: "ast list"

text \<open>
  Every \<open>errors.New\<close> and \<open>fmt.Errorf\<close> of the source is one constructor; the
  argument is the position (compiler) or the level (evaluator) the message carries.
\<close>

datatype error =
    ParseQuotedName_Termination nat
  | ParseQuotedName_BadHexLength nat
  | ParseQuotedName_CannotParseHex nat
  | ParseQuotedName_BadUnicodeLengthA nat
  | ParseQuotedName_CannotParseUnicode nat
  | ParseQuotedName_BadUnicodeLengthB nat
  | ParseQuotedName_ParseInt
  | ParseQuotedName_UnicodeTerminationA nat
  | ParseQuotedName_UnicodeTerminationB nat
  | ParseQuotedName_Bad4DigitLengthA nat
  | ParseQuotedName_CannotParse4Digit nat
  | ParseQuotedName_Bad4DigitLengthB nat
  | ParseBareName_Empty
  | ParseNumber_Empty
  | ParseHex_Empty
  | Compile_BadRoot
  | Compile_BracketTermination nat
  | Compile_BadNumber nat
  | Compile_IntegerCannotBeParsed nat
  | Compile_BadQuotedName nat
  | Compile_BracketNotClosed nat
  | Compile_DotTermination nat
  | Compile_BadFunctionName nat
  | Compile_ParenTermination nat
  | Compile_ParenNotClosed nat
  | Compile_BadName nat
  | Compile_UnexpectedCharacter nat
  | Query_NotRead
  | Query_NilReferenced nat
  | Query_PropertyDoesNotExist nat
  | Query_ObjectByNumber nat
  | Query_ObjectByFunction nat
  | Query_ArrayByName nat
  | Query_IndexOutOfRange nat
  | Query_UndefinedFunction nat
  | Query_UnexpectedDataType nat

text \<open>
  A call returns a value, returns an error, or panics (the Go runtime's
  "index out of range").
\<close>

datatype 'a outcome = Ok 'a | Failure error | Panic

section \<open>Library functions the package calls\<close>

text \<open>
  \<open>unicode.IsSpace\<close>, for the code points a path holds: the Latin-1 switch, then the
  table \<open>White_Space\<close>.
\<close>

definition IsSpace :: "rune \<Rightarrow> bool" where
  "IsSpace r =
     (if 0 \<le> r \<and> r \<le> 0xFF
      then r = 9 \<or> r = 10 \<or> r = 11 \<or> r = 12 \<or> r = 13 \<or> r = 32 \<or> r = 0x85 \<or> r = 0xA0
      else r = 0x1680 \<or> (0x2000 \<le> r \<and> r \<le> 0x200A) \<or> r = 0x2028 \<or> r = 0x2029
           \<or> r = 0x202F \<or> r = 0x205F \<or> r = 0x3000)"

text \<open>\<open>unicode.IsControl\<close>: category Cc, all of it in Latin-1.\<close>

definition IsControl :: "rune \<Rightarrow> bool" where
  "IsControl r = ((0 \<le> r \<and> r \<le> 0x1F) \<or> (0x7F \<le> r \<and> r \<le> 0x9F))"

text \<open>
  \<open>strconv.ParseInt(s, base, 64)\<close> for base 10 or 16: an optional sign, then one or
  more digits below the base; no underscores; \<open>None\<close> for a syntax error and for a
  value outside \<open>int64\<close>.
\<close>

definition digit_val :: "rune \<Rightarrow> nat option" where
  "digit_val c =
     (if 48 \<le> c \<and> c \<le> 57 then Some (nat (c - 48))
      else if 97 \<le> c \<and> c \<le> 122 then Some (nat (c - 97) + 10)
      else if 65 \<le> c \<and> c \<le> 90 then Some (nat (c - 65) + 10)
      else None)"

fun ParseUint_loop :: "rune list \<Rightarrow> nat \<Rightarrow> nat \<Rightarrow> nat option" where
  "ParseUint_loop [] base n = Some n"
| "ParseUint_loop (c # s) base n =
     (case digit_val c of
        None \<Rightarrow> None
      | Some d \<Rightarrow>
          if d \<ge> base then None
          else if n * base + d \<ge> 2 ^ 64 then None
          else ParseUint_loop s base (n * base + d))"

definition ParseUint :: "rune list \<Rightarrow> nat \<Rightarrow> nat option" where
  "ParseUint s base = (if s = [] then None else ParseUint_loop s base 0)"

definition ParseInt :: "rune list \<Rightarrow> nat \<Rightarrow> int option" where
  "ParseInt s base =
     (if s = [] then None
      else
        let neg = (hd s = 45);
            s1 = (if hd s = 43 \<or> hd s = 45 then tl s else s)
        in case ParseUint s1 base of
             None \<Rightarrow> None
           | Some un \<Rightarrow>
               if \<not> neg \<and> un \<ge> 2 ^ 63 then None
               else if neg \<and> un > 2 ^ 63 then None
               else Some (if neg then - int un else int un))"

section \<open>Scanner primitives\<close>

text \<open>\<open>skipSpaces\<close> returns a \<open>nil\<close> error on every path, so the model returns the index alone.\<close>

function skipSpaces :: "rune list \<Rightarrow> nat \<Rightarrow> nat" where
  "skipSpaces src i =
     (if i < length src
      then (if \<not> IsSpace (src ! i) \<and> \<not> IsControl (src ! i) then i
            else skipSpaces src (i + 1))
      else length src)"
  by pat_completeness auto
termination
  by (relation "measure (\<lambda>(src, i). length src - i)") auto

declare skipSpaces.simps [simp del]

function parseHex_loop :: "rune list \<Rightarrow> nat \<Rightarrow> nat" where
  "parseHex_loop src i =
     (if i < length src
      then (let ch = src ! i in
            if (48 \<le> ch \<and> ch \<le> 57) \<or> (65 \<le> ch \<and> ch \<le> 70) \<or> (97 \<le> ch \<and> ch \<le> 102)
            then parseHex_loop src (i + 1)
            else i)
      else i)"
  by pat_completeness auto
termination
  by (relation "measure (\<lambda>(src, i). length src - i)") auto

declare parseHex_loop.simps [simp del]

definition parseHex :: "rune list \<Rightarrow> nat \<Rightarrow> nat outcome" where
  "parseHex src start =
     (let i = parseHex_loop src start in
      if i = start then Failure ParseHex_Empty else Ok i)"

function parseNumber_loop :: "rune list \<Rightarrow> nat \<Rightarrow> nat" where
  "parseNumber_loop src i =
     (if i < length src
      then (let ch = src ! i in
            if i = 0 \<and> ch = 45 then parseNumber_loop src (i + 1)
            else if 48 \<le> ch \<and> ch \<le> 57 then parseNumber_loop src (i + 1)
            else i)
      else i)"
  by pat_completeness auto
termination
  by (relation "measure (\<lambda>(src, i). length src - i)") auto

declare parseNumber_loop.simps [simp del]

definition parseNumber :: "rune list \<Rightarrow> nat \<Rightarrow> nat outcome" where
  "parseNumber src start =
     (let i = parseNumber_loop src start in
      if i = start then Failure ParseNumber_Empty else Ok i)"

text \<open>The punctuation ranges \<open>! ... /\<close>, \<open>: ... @\<close>, \<open>[ ... `\<close>, \<open>{ ... ~\<close> that end a bare name.\<close>

definition bare_stop :: "rune \<Rightarrow> bool" where
  "bare_stop ch =
     ((33 \<le> ch \<and> ch \<le> 47) \<or> (58 \<le> ch \<and> ch \<le> 64) \<or> (91 \<le> ch \<and> ch \<le> 96)
      \<or> (123 \<le> ch \<and> ch \<le> 126))"

function parseBareName_loop :: "rune list \<Rightarrow> nat \<Rightarrow> rune list \<Rightarrow> nat \<times> rune list" where
  "parseBareName_loop src i buf =
     (if i < length src
      then (let ch = src ! i in
            if IsSpace ch \<or> IsControl ch then (i, buf)
            else if bare_stop ch then (i, buf)
            else parseBareName_loop src (i + 1) (buf @ [src ! i]))
      else (i, buf))"
  by pat_completeness auto
termination
  by (relation "measure (\<lambda>(src, i, buf). length src - i)") auto

declare parseBareName_loop.simps [simp del]

definition parseBareName :: "rune list \<Rightarrow> nat \<Rightarrow> (rune list \<times> nat) outcome" where
  "parseBareName src start =
     (case parseBareName_loop src start [] of
        (i, buf) \<Rightarrow>
          if length buf = 0 then Failure ParseBareName_Empty
          else Ok (go_string buf, i))"

text \<open>
  The body of \<open>case '\\'\<close> in the loop of \<open>parseQuotedName\<close>, for a backslash at
  index \<open>i\<close>: the runes it appends to \<open>buf\<close> and the index the next pass starts
  at (after the loop's \<open>i++\<close>).  The inner \<open>switch\<close> on the escape introducer has
  no \<open>default\<close>: for any other introducer nothing is appended and only the loop's
  \<open>i++\<close> runs.
\<close>

definition parse_escape :: "rune list \<Rightarrow> nat \<Rightarrow> (rune list \<times> nat) outcome" where
  "parse_escape src i =
     (if i + 1 = length src then Failure (ParseQuotedName_Termination i)
      else
        let c = src ! (i + 1) in
        if c = 92 \<or> c = 34 \<or> c = 39 \<or> c = 96 then Ok ([c], i + 2)
        else if c = 110 \<or> c = 78 then Ok ([10], i + 2)
        else if c = 114 \<or> c = 82 then Ok ([13], i + 2)
        else if c = 118 \<or> c = 86 then Ok ([11], i + 2)
        else if c = 116 \<or> c = 84 then Ok ([9], i + 2)
        else if c = 98 \<or> c = 66 then Ok ([8], i + 2)
        else if c = 102 \<or> c = 70 then Ok ([12], i + 2)
        else if c = 120 \<or> c = 88 then
          (if i + 3 \<ge> length src then Failure (ParseQuotedName_BadHexLength i)
           else
             (case ParseInt (slice src (i + 2) (i + 4)) 16 of
                None \<Rightarrow> Failure (ParseQuotedName_CannotParseHex i)
              | Some v \<Rightarrow> Ok ([v], i + 4)))
        else if c = 117 \<or> c = 85 then
          (if i + 2 \<ge> length src then Failure (ParseQuotedName_BadUnicodeLengthA i)
           else if src ! (i + 2) = 123 then
             (case parseHex src (i + 3) of
                Failure e \<Rightarrow> Failure (ParseQuotedName_CannotParseUnicode i)
              | Panic \<Rightarrow> Panic
              | Ok end \<Rightarrow>
                  if end > i + 9 then Failure (ParseQuotedName_BadUnicodeLengthB i)
                  else
                    (case ParseInt (slice src (i + 3) end) 16 of
                       None \<Rightarrow> Failure ParseQuotedName_ParseInt
                     | Some v \<Rightarrow>
                         if end \<ge> length src
                           then Failure (ParseQuotedName_UnicodeTerminationA i)
                         else if src ! end \<noteq> 125
                           then Failure (ParseQuotedName_UnicodeTerminationB i)
                         else Ok ([v], end + 1)))
           else
             (if i + 5 \<ge> length src then Failure (ParseQuotedName_Bad4DigitLengthA i)
              else
                (case parseHex src (i + 2) of
                   Failure e \<Rightarrow> Failure (ParseQuotedName_CannotParse4Digit i)
                 | Panic \<Rightarrow> Panic
                 | Ok end \<Rightarrow>
                     if end \<noteq> i + 6 then Failure (ParseQuotedName_Bad4DigitLengthB i)
                     else
                       (case ParseInt (slice src (i + 2) end) 16 of
                          None \<Rightarrow> Failure ParseQuotedName_ParseInt
                        | Some v \<Rightarrow> Ok ([v], end)))))
        else Ok ([], i + 1))"

text \<open>
  The loop of \<open>parseQuotedName\<close>, at index \<open>i\<close> with the runes decoded so far in
  \<open>buf\<close>.
\<close>

function parseQuotedName_loop ::
  "rune list \<Rightarrow> rune \<Rightarrow> nat \<Rightarrow> nat \<Rightarrow> rune list \<Rightarrow> (rune list \<times> nat) outcome" where
  "parseQuotedName_loop src cc start i buf =
     (if i < length src then
        (let ch = src ! i in
         if ch = cc then Ok (go_string buf, i + 1)
         else if ch = 92 then
           (case parse_escape src i of
              Failure e \<Rightarrow> Failure e
            | Panic \<Rightarrow> Panic
            | Ok (rs, i') \<Rightarrow> parseQuotedName_loop src cc start i' (buf @ rs))
         else parseQuotedName_loop src cc start (i + 1) (buf @ [ch]))
      else Failure (ParseQuotedName_Termination start))"
  by pat_completeness auto
termination
proof (relation "measure (\<lambda>(src, cc, start, i, buf). length src - i)")
  have hex_ge: "s \<le> parseHex_loop src s" for src s
    by (induction src s rule: parseHex_loop.induct)
       (subst parseHex_loop.simps, auto simp: Let_def)
  have hex_ok: "s \<le> e" if "parseHex src s = Ok e" for src s e
    using that hex_ge [of s src] by (auto simp: parseHex_def Let_def split: if_splits)
  have escape_gt: "i < i'" if "parse_escape src i = Ok (rs, i')" for src i rs i'
    using that unfolding parse_escape_def Let_def
    by (auto split: if_splits option.splits outcome.splits dest!: hex_ok)
  fix src :: "rune list" and cc :: rune and start i :: nat and buf :: "rune list"
    and ch :: rune and x1 :: "rune list \<times> nat" and rs :: "rune list" and i' :: nat
  assume "i < length src" and "parse_escape src i = Ok x1" and "(rs, i') = x1"
  then show "((src, cc, start, i', buf @ rs), src, cc, start, i, buf)
      \<in> measure (\<lambda>(src, cc, start, i, buf). length src - i)"
    using escape_gt [of src i rs i'] by auto
qed auto

declare parseQuotedName_loop.simps [simp del]

definition parseQuotedName :: "rune list \<Rightarrow> rune \<Rightarrow> nat \<Rightarrow> (rune list \<times> nat) outcome" where
  "parseQuotedName src cc start = parseQuotedName_loop src cc start start []"

text \<open>
  The same loop followed from index \<open>i\<close> only as far as index \<open>j\<close>: the runes
  decoded when a pass of the loop starts at \<open>j\<close>, and \<open>None\<close> when the loop meets
  the closing quote, fails or runs out of text before \<open>j\<close>, or steps over \<open>j\<close>
  inside an escape.  It says which backslashes of a quoted name the scan arrives at:
  in \<open>"\\x1"\<close> the scan arrives at the first backslash and not at the second.
\<close>

function parseQuotedName_upto ::
  "rune list \<Rightarrow> rune \<Rightarrow> nat \<Rightarrow> rune list \<Rightarrow> nat \<Rightarrow> rune list option" where
  "parseQuotedName_upto src cc i buf j =
     (if i = j then Some buf
      else if i < length src \<and> i < j then
        (let ch = src ! i in
         if ch = cc then None
         else if ch = 92 then
           (case parse_escape src i of
              Failure e \<Rightarrow> None
            | Panic \<Rightarrow> None
            | Ok (rs, i') \<Rightarrow> parseQuotedName_upto src cc i' (buf @ rs) j)
         else parseQuotedName_upto src cc (i + 1) (buf @ [ch]) j)
      else None)"
  by pat_completeness auto
termination
proof (relation "measure (\<lambda>(src, cc, i, buf, j). length src - i)")
  have hex_ge: "s \<le> parseHex_loop src s" for src s
    by (induction src s rule: parseHex_loop.induct)
       (subst parseHex_loop.simps, auto simp: Let_def)
  have hex_ok: "s \<le> e" if "parseHex src s = Ok e" for src s e
    using that hex_ge [of s src] by (auto simp: parseHex_def Let_def split: if_splits)
  have escape_gt: "i < i'" if "parse_escape src i = Ok (rs, i')" for src i rs i'
    using that unfolding parse_escape_def Let_def
    by (auto split: if_splits option.splits outcome.splits dest!: hex_ok)
  fix src :: "rune list" and cc :: rune and i j :: nat and buf :: "rune list"
    and ch :: rune and x1 :: "rune list \<times> nat" and rs :: "rune list" and i' :: nat
  assume "i < length src \<and> i < j" and "parse_escape src i = Ok x1" and "(rs, i') = x1"
  then show "((src, cc, i', buf @ rs, j), src, cc, i, buf, j)
      \<in> measure (\<lambda>(src, cc, i, buf, j). length src - i)"
    using escape_gt [of src i rs i'] by auto
qed auto

declare parseQuotedName_upto.simps [simp del]

section \<open>Path compiler\<close>

text \<open>
  The operand of a bracket indexer (the \<open>if\<close> on the first significant rune at
  \<open>start\<close>): the selector and the index after it.  \<open>int(num)\<close> keeps the value of
  the \<open>int64\<close>.
\<close>

definition bracket_operand :: "rune list \<Rightarrow> nat \<Rightarrow> (ast \<times> nat) outcome" where
  "bracket_operand src start =
     (if (48 \<le> src ! start \<and> src ! start \<le> 57) \<or> src ! start = 45 then
        (case parseNumber src start of
           Failure e \<Rightarrow> Failure (Compile_BadNumber start)
         | Panic \<Rightarrow> Panic
         | Ok end \<Rightarrow>
             (case ParseInt (slice src start end) 10 of
                None \<Rightarrow> Failure (Compile_IntegerCannotBeParsed start)
              | Some num \<Rightarrow> Ok (NumberIndexer (word_of_int num), end)))
      else
        (let ch2 = src ! start in
         if ch2 = 39 \<or> ch2 = 34 then
           (case parseQuotedName src ch2 (start + 1) of
              Failure e \<Rightarrow> Failure (Compile_BadQuotedName start)
            | Panic \<Rightarrow> Panic
            | Ok (nm, end) \<Rightarrow> Ok (NameIndexer nm, end))
         else Failure (Compile_BadQuotedName start)))"

text \<open>
  One pass of the body of the \<open>for\<close> loop of \<open>compileCore\<close> at index \<open>i\<close>, for
  each of its three branches: the index the next pass starts at (after the loop's
  \<open>i++\<close>) and the selectors so far.
\<close>

definition compile_bracket :: "rune list \<Rightarrow> nat \<Rightarrow> ast list \<Rightarrow> (nat \<times> ast list) outcome" where
  "compile_bracket src i acc =
     (let end = skipSpaces src (i + 1) in
      if end = length src then Failure (Compile_BracketTermination i)
      else
        (let start = end in
         case bracket_operand src start of
           Failure e \<Rightarrow> Failure e
         | Panic \<Rightarrow> Panic
         | Ok (a, end) \<Rightarrow>
             (let end = skipSpaces src end in
              if end = length src then Failure (Compile_BracketTermination start)
              else if src ! end \<noteq> 93 then Failure (Compile_BracketNotClosed end)
              else Ok (end + 1, acc @ [a]))))"

definition compile_dot :: "rune list \<Rightarrow> nat \<Rightarrow> ast list \<Rightarrow> (nat \<times> ast list) outcome" where
  "compile_dot src i acc =
     (let end = skipSpaces src (i + 1) in
      if end = length src then Failure (Compile_DotTermination i)
      else
        (let start = end; ch2 = src ! start in
         if ch2 = 40 then
           (let end = skipSpaces src (start + 1); start = end in
            case parseBareName src start of
              Failure e \<Rightarrow> Failure (Compile_BadFunctionName start)
            | Panic \<Rightarrow> Panic
            | Ok (nm, end) \<Rightarrow>
                (let end = skipSpaces src end in
                 if end = length src then Failure (Compile_ParenTermination start)
                 else if src ! end \<noteq> 41 then Failure (Compile_ParenNotClosed end)
                 else Ok (end + 1, acc @ [FunctionOperand nm])))
         else
           (case parseBareName src start of
              Failure e \<Rightarrow> Failure (Compile_BadName start)
            | Panic \<Rightarrow> Panic
            | Ok (nm, end) \<Rightarrow> Ok (skipSpaces src end, acc @ [NameIndexer nm]))))"

definition compile_step :: "rune list \<Rightarrow> nat \<Rightarrow> ast list \<Rightarrow> (nat \<times> ast list) outcome" where
  "compile_step src i acc =
     (let ch = src ! i in
      if IsSpace ch \<or> IsControl ch then Ok (skipSpaces src (i + 1), acc)
      else if ch = 91 then compile_bracket src i acc
      else if ch = 46 then compile_dot src i acc
      else Failure (Compile_UnexpectedCharacter i))"

function compileCore_loop :: "rune list \<Rightarrow> nat \<Rightarrow> ast list \<Rightarrow> ast list outcome" where
  "compileCore_loop src i acc =
     (if i < length src then
        (case compile_step src i acc of
           Failure e \<Rightarrow> Failure e
         | Panic \<Rightarrow> Panic
         | Ok (i', acc') \<Rightarrow> compileCore_loop src i' acc')
      else Ok acc)"
  by pat_completeness auto
termination
proof (relation "measure (\<lambda>(src, i, acc). length src - i)")
  have skip_ge: "min s (length src) \<le> skipSpaces src s" for src s
    by (induction src s rule: skipSpaces.induct) (subst skipSpaces.simps, auto)
  have skip_le: "skipSpaces src s \<le> length src" for src s
    by (induction src s rule: skipSpaces.induct) (subst skipSpaces.simps, auto)
  have num_ge: "s \<le> parseNumber_loop src s" for src s
    by (induction src s rule: parseNumber_loop.induct)
       (subst parseNumber_loop.simps, auto simp: Let_def)
  have bare_ge: "s \<le> fst (parseBareName_loop src s buf)" for src s buf
    by (induction src s buf rule: parseBareName_loop.induct)
       (subst parseBareName_loop.simps, auto simp: Let_def)
  have hex_ge: "s \<le> parseHex_loop src s" for src s
    by (induction src s rule: parseHex_loop.induct)
       (subst parseHex_loop.simps, auto simp: Let_def)
  have hex_ok: "s \<le> e" if "parseHex src s = Ok e" for src s e
    using that hex_ge [of s src] by (auto simp: parseHex_def Let_def split: if_splits)
  have escape_gt: "i < i'" if "parse_escape src i = Ok (rs, i')" for src i rs i'
    using that unfolding parse_escape_def Let_def
    by (auto split: if_splits option.splits outcome.splits dest!: hex_ok)
  have quoted_gt: "parseQuotedName_loop src cc start s buf = Ok (n, e) \<Longrightarrow> s < e"
    for src cc start s buf n e
  proof (induction src cc start s buf rule: parseQuotedName_loop.induct)
    case (1 src cc start i buf)
    note unf = parseQuotedName_loop.simps [of src cc start i buf]
    from "1.prems" have lt: "i < length src"
      by (subst (asm) unf) (simp split: if_splits)
    show ?case
    proof (cases "src ! i = cc")
      case True
      with "1.prems" lt show ?thesis by (subst (asm) unf) (simp add: Let_def)
    next
      case ncc: False
      show ?thesis
      proof (cases "src ! i = 92")
        case True
        with "1.prems" lt ncc obtain rs i' where
          esc: "parse_escape src i = Ok (rs, i')"
          and r: "parseQuotedName_loop src cc start i' (buf @ rs) = Ok (n, e)"
          by (subst (asm) unf) (auto simp: Let_def split: outcome.splits)
        have "i' < e"
          using "1.IH"(1) [OF lt refl ncc True esc refl r] .
        with escape_gt [OF esc] show ?thesis by simp
      next
        case False
        with "1.prems" lt ncc have
          "parseQuotedName_loop src cc start (i + 1) (buf @ [src ! i]) = Ok (n, e)"
          by (subst (asm) unf) (simp add: Let_def)
        then show ?thesis
          using "1.IH"(2) [OF lt refl ncc False] by simp
      qed
    qed
  qed
  have operand_gt: "bracket_operand src s = Ok (a, e) \<Longrightarrow> s < e" for src s a e
    using num_ge [of s src]
    by (auto simp: bracket_operand_def parseNumber_def parseQuotedName_def Let_def
          split: if_splits outcome.splits option.splits dest!: quoted_gt)
  have name_ge: "parseBareName src s = Ok (n, e) \<Longrightarrow> s \<le> e" for src s n e
    using bare_ge [of s src "[]"]
    by (auto simp: parseBareName_def split: prod.splits if_splits)
  have step_gt: "compile_step src i acc = Ok (i', acc') \<Longrightarrow> i < length src \<Longrightarrow> i < i'"
    for src i acc i' acc'
  proof -
    assume st: "compile_step src i acc = Ok (i', acc')" and lt: "i < length src"
    have s2: "i < skipSpaces src e" if "i < e" for e
      using skip_ge [of e src] lt that by (simp add: min_def split: if_splits)
    have s3: "i < skipSpaces src (Suc (skipSpaces src (Suc i)))"
      if "skipSpaces src (Suc i) \<noteq> length src"
      using s2 [of "Suc i"] skip_le [of src "Suc i"] that
        skip_ge [of "Suc (skipSpaces src (Suc i))" src] by simp
    from st show "i < i'"
      unfolding compile_step_def compile_bracket_def compile_dot_def Let_def
      using s2 [of "Suc i"] s3
      by (auto split: if_splits outcome.splits prod.splits
            dest!: operand_gt name_ge intro!: s2 less_SucI)
  qed
  fix src :: "rune list" and i :: nat and acc :: "ast list" and x1 x y
  assume "i < length src" "compile_step src i acc = Ok x1" "(x, y) = x1"
  then show "((src, x, y), src, i, acc) \<in> measure (\<lambda>(src, i, acc). length src - i)"
    using step_gt [of src i acc x y] by auto
qed auto

declare compileCore_loop.simps [simp del]

text \<open>
  \<open>compileCore\<close> reads \<open>src[0]\<close> before anything else: on an empty slice the Go
  runtime panics.  Its parameter \<open>root\<close> is written \<open>root'\<close>.
\<close>

definition compileCore :: "rune list \<Rightarrow> rune \<Rightarrow> CompiledJSONPath outcome" where
  "compileCore src root' =
     (if src = [] then Panic
      else if src ! 0 \<noteq> root' then Failure Compile_BadRoot
      else
        (case compileCore_loop src 1 [] of
           Failure e \<Rightarrow> Failure e
         | Panic \<Rightarrow> Panic
         | Ok as \<Rightarrow> Ok \<lparr>asts = as\<rparr>))"

definition Compile :: "rune list \<Rightarrow> CompiledJSONPath outcome" where
  "Compile path = compileCore path 36"

section \<open>Query evaluator\<close>

text \<open>
  One pass of the \<open>for i, a := range p.asts\<close> loop of \<open>Query\<close> on the current
  value \<open>v\<close>.  \<open>len(z)\<close> is a Go \<open>int\<close> (a slice has fewer than \<open>2^63\<close>
  elements), so \<open>length - idx\<close> is a 64-bit subtraction and the comparisons are
  signed; \<open>z[idx]\<close> with a negative \<open>idx\<close> panics.
\<close>

definition query_step :: "nat \<Rightarrow> 'f jvalue \<Rightarrow> ast \<Rightarrow> 'f jvalue outcome" where
  "query_step i v a =
     (case v of
        VNil \<Rightarrow> Failure (Query_NilReferenced i)
      | VMap z \<Rightarrow>
          (case atyp a of
             astType_NameIndexer \<Rightarrow>
               (case z (name a) of
                  None \<Rightarrow> Failure (Query_PropertyDoesNotExist i)
                | Some v' \<Rightarrow> Ok v')
           | astType_NumberIndexer \<Rightarrow> Failure (Query_ObjectByNumber i)
           | astType_Function \<Rightarrow> Failure (Query_ObjectByFunction i))
      | VSlice z \<Rightarrow>
          (let len = (of_nat (length z) :: 64 word) in
           case atyp a of
             astType_NameIndexer \<Rightarrow> Failure (Query_ArrayByName i)
           | astType_NumberIndexer \<Rightarrow>
               (let idx = (if sint (index a) < 0 then len - index a else index a) in
                if sint len \<le> sint idx then Failure (Query_IndexOutOfRange i)
                else if sint idx < 0 then Panic
                else Ok (z ! nat (sint idx)))
           | astType_Function \<Rightarrow>
               (if name a = runes ''length'' then Ok (VInt len)
                else if name a = runes ''first'' then
                  (if len = 0 then Failure (Query_IndexOutOfRange i) else Ok (z ! 0))
                else if name a = runes ''last'' then
                  (if len = 0 then Failure (Query_IndexOutOfRange i)
                   else Ok (z ! (length z - 1)))
                else Failure (Query_UndefinedFunction i)))
      | _ \<Rightarrow> Failure (Query_UnexpectedDataType i))"

fun Query_loop :: "nat \<Rightarrow> 'f jvalue \<Rightarrow> ast list \<Rightarrow> 'f jvalue outcome" where
  "Query_loop i v [] = Ok v"
| "Query_loop i v (a # as) =
     (case query_step i v a of
        Failure e \<Rightarrow> Failure e
      | Panic \<Rightarrow> Panic
      | Ok v' \<Rightarrow> Query_loop (i + 1) v' as)"

definition Query :: "CompiledJSONPath \<Rightarrow> 'f parsedJSON \<Rightarrow> 'f jvalue outcome" where
  "Query p pjson =
     (if ptyp pjson = Type_Invalid then Failure Query_NotRead
      else Query_loop 0 (pvalue pjson) (asts p))"

text \<open>
  The accessors return no error; a panic of \<open>Query\<close> passes through them.
\<close>

definition QueryAsStringOrZero :: "CompiledJSONPath \<Rightarrow> 'f parsedJSON \<Rightarrow> rune list outcome" where
  "QueryAsStringOrZero p pjson =
     (case Query p pjson of
        Failure e \<Rightarrow> Ok []
      | Panic \<Rightarrow> Panic
      | Ok v \<Rightarrow> (case v of VString ret \<Rightarrow> Ok ret | _ \<Rightarrow> Ok []))"

definition QueryAsNumberOrZero :: "CompiledJSONPath \<Rightarrow> ('f::zero) parsedJSON \<Rightarrow> 'f outcome" where
  "QueryAsNumberOrZero p pjson =
     (case Query p pjson of
        Failure e \<Rightarrow> Ok 0
      | Panic \<Rightarrow> Panic
      | Ok v \<Rightarrow> (case v of VFloat64 ret \<Rightarrow> Ok ret | _ \<Rightarrow> Ok 0))"

section \<open>Writing paths down\<close>

text \<open>
  \<open>bs s\<close> is a backslash followed by \<open>s\<close>, and \<open>dq s\<close> is \<open>s\<close> between two
  double quotes.
\<close>

definition bs :: "string \<Rightarrow> rune list" where
  "bs s = 92 # runes s"

definition dq :: "rune list \<Rightarrow> rune list" where
  "dq s = 34 # s @ [34]"

section \<open>The escape table, as the specification words it\<close>

text \<open>
  A hexadecimal digit; the length of the run of hexadecimal digits that starts at an
  index; the introducers the escape table lists; and a hex escape at a backslash at
  index \<open>i\<close> that is malformed or too long: \<open>\x\<close> without two hex digits after it
  (a sign in place of the first digit is not counted as malformed here), \<open>\u{\<close>
  with no digit, more than six digits or no closing brace, \<open>\u\<close> with a digit run
  of a length other than four.
\<close>

definition is_hex :: "rune \<Rightarrow> bool" where
  "is_hex c = ((48 \<le> c \<and> c \<le> 57) \<or> (65 \<le> c \<and> c \<le> 70) \<or> (97 \<le> c \<and> c \<le> 102))"

definition hex_run :: "rune list \<Rightarrow> nat \<Rightarrow> nat" where
  "hex_run src s = length (takeWhile is_hex (drop s src))"

definition table_introducer :: "rune \<Rightarrow> bool" where
  "table_introducer c =
     (c = 92 \<or> c = 34 \<or> c = 39 \<or> c = 96
      \<or> c = 110 \<or> c = 78 \<or> c = 114 \<or> c = 82 \<or> c = 118 \<or> c = 86
      \<or> c = 116 \<or> c = 84 \<or> c = 98 \<or> c = 66 \<or> c = 102 \<or> c = 70
      \<or> c = 120 \<or> c = 88 \<or> c = 117 \<or> c = 85)"

text \<open>
  What an escape with a one-rune introducer other than \<open>x\<close> and \<open>u\<close> appends, and
  how many runes it takes: the entries of the table, and nothing but the backslash
  for any other introducer.
\<close>

definition simple_escape :: "rune \<Rightarrow> rune list \<times> nat" where
  "simple_escape c =
     (if c = 92 \<or> c = 34 \<or> c = 39 \<or> c = 96 then ([c], 2)
      else if c = 110 \<or> c = 78 then ([10], 2)
      else if c = 114 \<or> c = 82 then ([13], 2)
      else if c = 118 \<or> c = 86 then ([11], 2)
      else if c = 116 \<or> c = 84 then ([9], 2)
      else if c = 98 \<or> c = 66 then ([8], 2)
      else if c = 102 \<or> c = 70 then ([12], 2)
      else ([], 1))"

definition bad_hex_escape :: "rune list \<Rightarrow> nat \<Rightarrow> bool" where
  "bad_hex_escape src i =
     (let c = src ! (i + 1) in
      if c = 120 \<or> c = 88 then
        i + 3 \<ge> length src
        \<or> \<not> (is_hex (src ! (i + 2)) \<or> src ! (i + 2) = 43 \<or> src ! (i + 2) = 45)
        \<or> \<not> is_hex (src ! (i + 3))
      else if c = 117 \<or> c = 85 then
        (if i + 2 < length src \<and> src ! (i + 2) = 123 then
           hex_run src (i + 3) = 0 \<or> 6 < hex_run src (i + 3)
           \<or> i + 3 + hex_run src (i + 3) \<ge> length src
           \<or> src ! (i + 3 + hex_run src (i + 3)) \<noteq> 125
         else hex_run src (i + 2) \<noteq> 4)
      else False)"

section \<open>Paths as segments with whitespace between the tokens\<close>

text \<open>
  \<open>ws\<close> is a whitespace or control rune, \<open>name_char\<close> a rune that a bare name
  may hold, \<open>is_digit\<close> a decimal digit; \<open>stops P rest\<close> says that a run of
  \<open>P\<close>-runes ends where \<open>rest\<close> starts.

  A segment is one selector as the path text writes it: the digits of \<open>[N]\<close>, the
  quote and the text between the quotes of \<open>['name']\<close> or \<open>["name"]\<close>, the bare
  name of \<open>.name\<close>, the name of \<open>.(name)\<close>.  \<open>render_segment\<close> writes it with a
  run of runes in each gap between its tokens (before the opening token and around
  the operand), \<open>render_path\<close> writes the root marker, the segments and a trailing
  run, and \<open>plain_path\<close> writes the same segments with every gap empty.
  \<open>segment_step\<close> is the selector a well-formed segment denotes: for a quoted name
  the scan of its text and closing quote alone has to end at that quote.
\<close>

definition ws :: "rune \<Rightarrow> bool" where
  "ws c = (IsSpace c \<or> IsControl c)"

definition name_char :: "rune \<Rightarrow> bool" where
  "name_char c = (\<not> IsSpace c \<and> \<not> IsControl c \<and> \<not> bare_stop c)"

definition is_digit :: "rune \<Rightarrow> bool" where
  "is_digit c = (48 \<le> c \<and> c \<le> 57)"

definition stops :: "(rune \<Rightarrow> bool) \<Rightarrow> rune list \<Rightarrow> bool" where
  "stops P rest = (case rest of [] \<Rightarrow> True | c # _ \<Rightarrow> \<not> P c)"

datatype segment =
    SegNumber "rune list"
  | SegQuoted rune "rune list"
  | SegName "rune list"
  | SegFunction "rune list"

type_synonym gaps = "rune list \<times> rune list \<times> rune list \<times> rune list"

fun render_segment :: "gaps \<Rightarrow> segment \<Rightarrow> rune list" where
  "render_segment (w0, w1, w2, w3) (SegNumber d) = w0 @ [91] @ w1 @ d @ w2 @ [93]"
| "render_segment (w0, w1, w2, w3) (SegQuoted q raw) =
     w0 @ [91] @ w1 @ [q] @ raw @ [q] @ w2 @ [93]"
| "render_segment (w0, w1, w2, w3) (SegName n) = w0 @ [46] @ w1 @ n"
| "render_segment (w0, w1, w2, w3) (SegFunction f) =
     w0 @ [46] @ w1 @ [40] @ w2 @ f @ w3 @ [41]"

definition render_path :: "(gaps \<times> segment) list \<Rightarrow> rune list \<Rightarrow> rune list" where
  "render_path segs wt = 36 # concat (map (\<lambda>(g, s). render_segment g s) segs) @ wt"

definition plain_path :: "segment list \<Rightarrow> rune list" where
  "plain_path segs = render_path (map (\<lambda>s. (([], [], [], []), s)) segs) []"

fun gaps_ok :: "gaps \<Rightarrow> bool" where
  "gaps_ok (w0, w1, w2, w3) =
     (list_all ws w0 \<and> list_all ws w1 \<and> list_all ws w2 \<and> list_all ws w3)"

fun segment_step :: "segment \<Rightarrow> ast option" where
  "segment_step (SegNumber d) =
     (if d \<noteq> [] \<and> list_all is_digit d
      then map_option (\<lambda>num. NumberIndexer (word_of_int num)) (ParseInt d 10)
      else None)"
| "segment_step (SegQuoted q raw) =
     (if q = 34 \<or> q = 39 then
        (case parseQuotedName (raw @ [q]) q 0 of
           Ok (nm, e) \<Rightarrow> if e = length raw + 1 then Some (NameIndexer nm) else None
         | Failure err \<Rightarrow> None
         | Panic \<Rightarrow> None)
      else None)"
| "segment_step (SegName n) =
     (if n \<noteq> [] \<and> list_all name_char n then Some (NameIndexer (go_string n)) else None)"
| "segment_step (SegFunction f) =
     (if f \<noteq> [] \<and> list_all name_char f then Some (FunctionOperand (go_string f)) else None)"

definition body :: "(gaps \<times> segment) list \<Rightarrow> rune list" where
  "body segs = concat (map (\<lambda>(g, s). render_segment g s) segs)"

definition spaced_ok :: "gaps \<times> segment \<Rightarrow> bool" where
  "spaced_ok gs = (gaps_ok (fst gs) \<and> segment_step (snd gs) \<noteq> None)"

section \<open>Properties of compiled paths\<close>

text \<open>The index of a selector is not negative, read as a signed 64-bit integer.\<close>

definition index_nonneg :: "ast \<Rightarrow> bool" where
  "index_nonneg a = (0 \<le> sint (index a))"

section \<open>Evaluation on concrete inputs\<close>

lemmas scan_eval =
  parseNumber_def parseNumber_loop.simps parseHex_def parseHex_loop.simps
  parseBareName_def parseBareName_loop.simps parseQuotedName_def parseQuotedName_loop.simps
  parse_escape_def skipSpaces.simps IsSpace_def IsControl_def bare_stop_def go_string_def
  slice_def ParseInt_def ParseUint_def digit_val_def runes_def bs_def dq_def Let_def

lemmas compile_eval =
  Compile_def compileCore_def compileCore_loop.simps compile_step_def compile_bracket_def
  compile_dot_def bracket_operand_def NameIndexer_def NumberIndexer_def FunctionOperand_def
  scan_eval

lemmas query_eval =
  Query_def query_step_def QueryAsStringOrZero_def QueryAsNumberOrZero_def
  NameIndexer_def NumberIndexer_def FunctionOperand_def runes_def

section \<open>The evaluator, step by step\<close>

lemma Query_loop_append:
  "Query_loop i v (xs @ ys) =
     (case Query_loop i v xs of
        Failure e \<Rightarrow> Failure e
      | Panic \<Rightarrow> Panic
      | Ok v' \<Rightarrow> Query_loop (i + length xs) v' ys)"
  by (induction xs arbitrary: i v) (auto split: outcome.splits)

lemma Query_snoc:
  assumes "Query \<lparr>asts = pre\<rparr> pjson = Ok v"
  shows "Query \<lparr>asts = pre @ [a]\<rparr> pjson = query_step (length pre) v a"
  using assms
  by (auto simp: Query_def Query_loop_append split: if_splits outcome.splits)

section \<open>Signed 64-bit arithmetic of the numeric indexer\<close>




lemma sint_word_of_int_nonneg:
  assumes "0 \<le> v" and "v < 2 ^ 63"
  shows "sint (word_of_int v :: 64 word) = v"
  using assms by (simp add: signed_take_bit_int_eq_self sint_sbintrunc')

section \<open>No compiled index is negative\<close>

lemma skipSpaces_ge_min:
  "min s (length src) \<le> skipSpaces src s"
  by (induction src s rule: skipSpaces.induct) (subst skipSpaces.simps, auto)

lemma skipSpaces_le_length:
  "skipSpaces src s \<le> length src"
  by (induction src s rule: skipSpaces.induct) (subst skipSpaces.simps, auto)

lemma skipSpaces_Suc_pos:
  "skipSpaces src (Suc i) \<noteq> length src \<Longrightarrow> 0 < skipSpaces src (Suc i)"
  using skipSpaces_ge_min [of "Suc i" src]
  by (cases "length src") (auto simp: min_def split: if_splits)

lemma parseNumber_loop_ge:
  "s \<le> parseNumber_loop src s"
  by (induction src s rule: parseNumber_loop.induct)
     (subst parseNumber_loop.simps, auto simp: Let_def)

lemma parseNumber_Ok_digit:
  assumes "parseNumber src start = Ok e" and "0 < start"
  shows "start < length src \<and> 48 \<le> src ! start \<and> src ! start \<le> 57 \<and> start < e"
proof -
  from assms have ne: "parseNumber_loop src start \<noteq> start"
    and e: "e = parseNumber_loop src start"
    by (auto simp: parseNumber_def Let_def split: if_splits)
  from ne assms(2) have "start < length src \<and> 48 \<le> src ! start \<and> src ! start \<le> 57"
    by (subst (asm) parseNumber_loop.simps) (auto simp: Let_def split: if_splits)
  with ne e parseNumber_loop_ge [of start src] show ?thesis by auto
qed

lemma ParseInt_nonneg:
  assumes "ParseInt s b = Some v" and "hd s \<noteq> 45"
  shows "0 \<le> v \<and> v < 2 ^ 63"
  using assms by (auto simp: ParseInt_def Let_def split: if_splits option.splits)

lemma bracket_operand_nonneg:
  assumes "bracket_operand src start = Ok (a, e)" and "0 < start"
  shows "index_nonneg a"
proof (cases "(48 \<le> src ! start \<and> src ! start \<le> 57) \<or> src ! start = 45")
  case True
  with assms(1) obtain e' num where
    pn: "parseNumber src start = Ok e'"
    and pi: "ParseInt (slice src start e') 10 = Some num"
    and a: "a = NumberIndexer (word_of_int num)"
    by (auto simp: bracket_operand_def split: outcome.splits option.splits)
  from parseNumber_Ok_digit [OF pn assms(2)]
  have "hd (slice src start e') = src ! start" and "src ! start \<noteq> 45"
    by (auto simp: slice_def hd_conv_nth hd_drop_conv_nth)
  with ParseInt_nonneg [OF pi] have "0 \<le> num \<and> num < 2 ^ 63" by simp
  with a show ?thesis
    by (simp add: index_nonneg_def NumberIndexer_def sint_word_of_int_nonneg)
next
  case False
  with assms(1) show ?thesis
    by (auto simp: bracket_operand_def Let_def index_nonneg_def NameIndexer_def
          split: if_splits outcome.splits)
qed

lemma index_nonneg_simps [simp]:
  "index_nonneg (NameIndexer n)" "index_nonneg (FunctionOperand n)"
  by (simp_all add: index_nonneg_def NameIndexer_def FunctionOperand_def)

lemma compile_step_nonneg:
  assumes "compile_step src i acc = Ok (i', acc')" and "list_all index_nonneg acc"
  shows "list_all index_nonneg acc'"
  using assms
  unfolding compile_step_def compile_bracket_def compile_dot_def Let_def
  by (auto split: if_splits outcome.splits prod.splits
        dest: bracket_operand_nonneg skipSpaces_Suc_pos)

lemma compileCore_loop_nonneg:
  "compileCore_loop src i acc = Ok r \<Longrightarrow> list_all index_nonneg acc
     \<Longrightarrow> list_all index_nonneg r"
proof (induction src i acc rule: compileCore_loop.induct)
  case (1 src i acc)
  show ?case
  proof (cases "i < length src")
    case True
    with "1.prems"(1) obtain i' acc' where
      st: "compile_step src i acc = Ok (i', acc')"
      and r: "compileCore_loop src i' acc' = Ok r"
      by (subst (asm) compileCore_loop.simps) (auto split: outcome.splits)
    from "1.IH" [OF True st refl r compile_step_nonneg [OF st "1.prems"(2)]]
    show ?thesis .
  next
    case False
    with "1.prems" show ?thesis
      by (subst (asm) compileCore_loop.simps) simp
  qed
qed

lemma Compile_nonneg:
  "Compile path = Ok p \<Longrightarrow> list_all index_nonneg (asts p)"
  by (auto simp: Compile_def compileCore_def split: if_splits outcome.splits
        dest!: compileCore_loop_nonneg)

lemma query_step_no_panic:
  "index_nonneg a \<Longrightarrow> query_step i v a \<noteq> Panic"
  by (auto simp: query_step_def index_nonneg_def Let_def
        split: jvalue.splits astType.splits option.splits)

lemma Query_loop_no_panic:
  "list_all index_nonneg as \<Longrightarrow> Query_loop i v as \<noteq> Panic"
  by (induction as arbitrary: i v) (auto split: outcome.splits dest: query_step_no_panic)

lemma Query_no_panic:
  "Compile path = Ok p \<Longrightarrow> Query p pjson \<noteq> Panic"
  by (auto simp: Query_def dest!: Compile_nonneg Query_loop_no_panic)

section \<open>Escapes in quoted names\<close>

lemma parseHex_loop_unfold:
  "parseHex_loop src i =
     (if i < length src then (if is_hex (src ! i) then parseHex_loop src (i + 1) else i) else i)"
  by (subst parseHex_loop.simps) (simp add: is_hex_def Let_def)

lemma hex_run_unfold:
  "hex_run src i =
     (if i < length src then (if is_hex (src ! i) then 1 + hex_run src (i + 1) else 0) else 0)"
  by (simp add: hex_run_def Cons_nth_drop_Suc [symmetric])

lemma parseHex_loop_eq: "parseHex_loop src s = s + hex_run src s"
proof (induction src s rule: parseHex_loop.induct)
  case (1 src i)
  show ?case
  proof (cases "i < length src \<and> is_hex (src ! i)")
    case True
    then have "parseHex_loop src i = parseHex_loop src (i + 1)"
      by (subst parseHex_loop_unfold) simp
    also have "\<dots> = (i + 1) + hex_run src (i + 1)"
      using "1.IH" [OF _ refl] True by (simp add: is_hex_def)
    also have "\<dots> = i + hex_run src i"
      using True by (subst (2) hex_run_unfold) simp
    finally show ?thesis .
  next
    case False
    then show ?thesis
      by (subst parseHex_loop_unfold, subst hex_run_unfold) auto
  qed
qed

lemma parseHex_eq:
  "parseHex src s = (if hex_run src s = 0 then Failure ParseHex_Empty else Ok (s + hex_run src s))"
  by (simp add: parseHex_def parseHex_loop_eq)

lemma digit_val_hex: "\<not> is_hex c \<Longrightarrow> (case digit_val c of None \<Rightarrow> True | Some d \<Rightarrow> 16 \<le> d)"
  by (auto simp: is_hex_def digit_val_def)

lemma ParseUint_loop_not_hex:
  "\<not> is_hex c \<Longrightarrow> ParseUint_loop (c # s) 16 n = None"
  using digit_val_hex [of c] by (auto split: option.splits)

lemma ParseInt_pair_None:
  assumes "\<not> (is_hex a \<or> a = 43 \<or> a = 45) \<or> \<not> is_hex b"
  shows "ParseInt [a, b] 16 = None"
  using assms digit_val_hex [of a] digit_val_hex [of b]
  by (auto simp: ParseInt_def ParseUint_def Let_def is_hex_def split: option.splits if_splits)

lemma slice_pair: "i + 3 < length src \<Longrightarrow> slice src (i + 2) (i + 4) = [src ! (i + 2), src ! (i + 3)]"
  by (simp add: slice_def take_Suc_conv_app_nth numeral_eq_Suc Cons_nth_drop_Suc[symmetric] hd_drop_conv_nth take_Suc)
   
lemma parse_escape_simple:
  assumes "i + 1 < length src"
    and "src ! (i + 1) \<noteq> 120" "src ! (i + 1) \<noteq> 88"
      "src ! (i + 1) \<noteq> 117" "src ! (i + 1) \<noteq> 85"
  shows "parse_escape src i
      = Ok (fst (simple_escape (src ! (i + 1))), i + snd (simple_escape (src ! (i + 1))))"
  using assms by (simp add: parse_escape_def simple_escape_def Let_def)

lemma parse_escape_unknown:
  assumes "i + 1 < length src" and "\<not> table_introducer (src ! (i + 1))"
  shows "parse_escape src i = Ok ([], i + 1)"
  using assms by (simp add: parse_escape_def table_introducer_def Let_def)

lemma parse_escape_bad_hex:
  assumes "i + 1 < length src" and "bad_hex_escape src i"
  shows "\<exists>e. parse_escape src i = Failure e"
proof -
  consider (x) "src ! (i + 1) = 120 \<or> src ! (i + 1) = 88"
    | (u) "src ! (i + 1) = 117 \<or> src ! (i + 1) = 85"
    using assms(2) by (auto simp: bad_hex_escape_def Let_def split: if_splits)
  then show ?thesis
  proof cases
    case x
    show ?thesis
    proof (cases "i + 3 \<ge> length src")
      case True
      with x assms(1) show ?thesis
        by (elim disjE; simp add: parse_escape_def Let_def)
    next
      case False
      then have sl: "slice src (i + 2) (i + 4) = [src ! (i + 2), src ! (i + 3)]"
        by (intro slice_pair) simp
      have "\<not> (is_hex (src ! (i + 2)) \<or> src ! (i + 2) = 43 \<or> src ! (i + 2) = 45)
          \<or> \<not> is_hex (src ! (i + 3))"
        using assms(2) x False by (auto simp: bad_hex_escape_def Let_def)
      then have "ParseInt (slice src (i + 2) (i + 4)) 16 = None"
        unfolding sl by (rule ParseInt_pair_None)
      with x assms(1) False show ?thesis
        by (elim disjE; simp add: parse_escape_def Let_def)
    qed
  next
    case u
    define r where "r = hex_run src (i + 3)"
    define r4 where "r4 = hex_run src (i + 2)"
    show ?thesis
    proof (cases "i + 2 < length src \<and> src ! (i + 2) = 123")
      case True
      with assms(2) u have bad:
        "r = 0 \<or> 6 < r \<or> i + 3 + r \<ge> length src \<or> src ! (i + 3 + r) \<noteq> 125"
        by (auto simp: bad_hex_escape_def Let_def r_def split: if_splits)
      have pe: "parse_escape src i =
          (case parseHex src (i + 3) of
             Failure e \<Rightarrow> Failure (ParseQuotedName_CannotParseUnicode i)
           | Panic \<Rightarrow> Panic
           | Ok end \<Rightarrow>
               if end > i + 9 then Failure (ParseQuotedName_BadUnicodeLengthB i)
               else
                 (case ParseInt (slice src (i + 3) end) 16 of
                    None \<Rightarrow> Failure ParseQuotedName_ParseInt
                  | Some v \<Rightarrow>
                      if end \<ge> length src
                        then Failure (ParseQuotedName_UnicodeTerminationA i)
                      else if src ! end \<noteq> 125
                        then Failure (ParseQuotedName_UnicodeTerminationB i)
                      else Ok ([v], end + 1)))"
        using u True assms(1) by (elim disjE; simp add: parse_escape_def Let_def)
      have ph: "parseHex src (i + 3) = (if r = 0 then Failure ParseHex_Empty else Ok (i + 3 + r))"
        by (simp add: parseHex_eq r_def)
      show ?thesis
      proof (cases "r = 0")
        case True
        then show ?thesis unfolding pe ph by simp
      next
        case r0: False
        show ?thesis
        proof (cases "6 < r")
          case True
          then show ?thesis using r0 unfolding pe ph by simp
        next
          case False
          with bad r0 have "i + 3 + r \<ge> length src \<or> src ! (i + 3 + r) \<noteq> 125"
            by simp
          then show ?thesis
            using r0 False unfolding pe ph by (auto split: option.splits)
        qed
      qed
    next
      case False
      with assms(2) u have bad: "r4 \<noteq> 4"
        by (auto simp: bad_hex_escape_def Let_def r4_def split: if_splits)
      have pe: "parse_escape src i =
          (if i + 2 \<ge> length src then Failure (ParseQuotedName_BadUnicodeLengthA i)
           else if i + 5 \<ge> length src then Failure (ParseQuotedName_Bad4DigitLengthA i)
           else
             (case parseHex src (i + 2) of
                Failure e \<Rightarrow> Failure (ParseQuotedName_CannotParse4Digit i)
              | Panic \<Rightarrow> Panic
              | Ok end \<Rightarrow>
                  if end \<noteq> i + 6 then Failure (ParseQuotedName_Bad4DigitLengthB i)
                  else
                    (case ParseInt (slice src (i + 2) end) 16 of
                       None \<Rightarrow> Failure ParseQuotedName_ParseInt
                     | Some v \<Rightarrow> Ok ([v], end))))"
        using u False assms(1) by (elim disjE; simp add: parse_escape_def Let_def)
      have ph: "parseHex src (i + 2) = (if r4 = 0 then Failure ParseHex_Empty else Ok (i + 2 + r4))"
        by (simp add: parseHex_eq r4_def)
      from bad show ?thesis
        unfolding pe ph by simp
    qed
  qed
qed

lemma quoted_failure_propagates:
  assumes "i < length src" and "src ! i = 91"
    and "st = skipSpaces src (i + 1)" and "st < length src"
    and "src ! st = 34 \<or> src ! st = 39"
    and "parseQuotedName src (src ! st) (st + 1) = Failure e"
  shows "compileCore_loop src i acc = Failure (Compile_BadQuotedName st)"
proof -
  have "bracket_operand src st = Failure (Compile_BadQuotedName st)"
    using assms(5,6) by (elim disjE; simp add: bracket_operand_def Let_def)
  then have "compile_step src i acc = Failure (Compile_BadQuotedName st)"
    using assms(1-4)
    by (simp add: compile_step_def compile_bracket_def Let_def IsSpace_def IsControl_def)
  with assms(1) show ?thesis
    by (subst compileCore_loop.simps) simp
qed

section \<open>Scanning inside a longer text\<close>

lemma stops_simps [simp]: "stops P [] = True" "stops P (c # cs) = (\<not> P c)"
  by (simp_all add: stops_def)

lemma skipSpaces_unfold:
  "skipSpaces src i =
     (if i < length src then (if ws (src ! i) then skipSpaces src (i + 1) else i) else length src)"
  by (subst skipSpaces.simps) (simp add: ws_def)

lemma skipSpaces_append:
  "list_all ws w \<Longrightarrow> stops ws rest
     \<Longrightarrow> skipSpaces (pre @ w @ rest) (length pre) = length pre + length w"
proof (induction w arbitrary: pre)
  case Nil
  then show ?case
    by (subst skipSpaces_unfold) (cases rest; simp)
next
  case (Cons c w)
  have "skipSpaces (pre @ (c # w) @ rest) (length pre)
      = skipSpaces ((pre @ [c]) @ w @ rest) (length (pre @ [c]))"
    using Cons.prems(1) by (subst skipSpaces_unfold) simp
  also have "\<dots> = length (pre @ [c]) + length w"
    using Cons.prems by (intro Cons.IH) simp_all
  finally show ?case by simp
qed

lemma parseBareName_loop_unfold:
  "parseBareName_loop src i buf =
     (if i < length src then
        (if name_char (src ! i) then parseBareName_loop src (i + 1) (buf @ [src ! i])
         else (i, buf))
      else (i, buf))"
  by (subst parseBareName_loop.simps) (auto simp: name_char_def Let_def)

lemma parseBareName_loop_append:
  "list_all name_char n \<Longrightarrow> stops name_char rest
     \<Longrightarrow> parseBareName_loop (pre @ n @ rest) (length pre) buf
         = (length pre + length n, buf @ n)"
proof (induction n arbitrary: pre buf)
  case Nil
  then show ?case
    by (subst parseBareName_loop_unfold) (cases rest; simp)
next
  case (Cons c n)
  have "parseBareName_loop (pre @ (c # n) @ rest) (length pre) buf
      = parseBareName_loop ((pre @ [c]) @ n @ rest) (length (pre @ [c])) (buf @ [c])"
    using Cons.prems(1) by (subst parseBareName_loop_unfold) simp
  also have "\<dots> = (length (pre @ [c]) + length n, (buf @ [c]) @ n)"
    using Cons.prems by (intro Cons.IH) simp_all
  finally show ?case by simp
qed

lemma parseBareName_append:
  assumes "n \<noteq> []" and "list_all name_char n" and "stops name_char rest"
  shows "parseBareName (pre @ n @ rest) (length pre) = Ok (go_string n, length pre + length n)"
  using assms by (simp add: parseBareName_def parseBareName_loop_append)

lemma parseNumber_loop_unfold:
  "0 < i \<Longrightarrow> parseNumber_loop src i =
     (if i < length src then
        (if is_digit (src ! i) then parseNumber_loop src (i + 1) else i)
      else i)"
  by (subst parseNumber_loop.simps) (auto simp: is_digit_def Let_def)

lemma parseNumber_loop_append:
  "list_all is_digit d \<Longrightarrow> stops is_digit rest \<Longrightarrow> pre \<noteq> []
     \<Longrightarrow> parseNumber_loop (pre @ d @ rest) (length pre) = length pre + length d"
proof (induction d arbitrary: pre)
  case Nil
  then show ?case
    by (subst parseNumber_loop_unfold) (cases rest; simp)+
next
  case (Cons c d)
  have "parseNumber_loop (pre @ (c # d) @ rest) (length pre)
      = parseNumber_loop ((pre @ [c]) @ d @ rest) (length (pre @ [c]))"
    using Cons.prems(1,3) by (subst parseNumber_loop_unfold) simp_all
  also have "\<dots> = length (pre @ [c]) + length d"
    using Cons.prems by (intro Cons.IH) simp_all
  finally show ?case by simp
qed

lemma parseNumber_append:
  assumes "d \<noteq> []" and "list_all is_digit d" and "stops is_digit rest" and "pre \<noteq> []"
  shows "parseNumber (pre @ d @ rest) (length pre) = Ok (length pre + length d)"
  using assms by (simp add: parseNumber_def parseNumber_loop_append)

lemma slice_append: "slice (pre @ d @ rest) (length pre) (length pre + length d) = d"
  by (simp add: slice_def)

lemma compileCore_loop_skip:
  "compileCore_loop src i acc = compileCore_loop src (skipSpaces src i) acc"
proof (cases "i < length src")
  case True
  show ?thesis
  proof (cases "ws (src ! i)")
    case w: True
    then have "compile_step src i acc = Ok (skipSpaces src (i + 1), acc)"
      by (simp add: compile_step_def ws_def Let_def)
    then have "compileCore_loop src i acc = compileCore_loop src (skipSpaces src (i + 1)) acc"
      using True by (subst compileCore_loop.simps) simp
    moreover have "skipSpaces src i = skipSpaces src (i + 1)"
      using True w by (subst skipSpaces_unfold) simp
    ultimately show ?thesis by simp
  next
    case False
    then have "skipSpaces src i = i"
      using True by (subst skipSpaces_unfold) simp
    then show ?thesis by simp
  qed
next
  case False
  then have "skipSpaces src i = length src"
    by (subst skipSpaces_unfold) simp
  with False show ?thesis
    by (subst (1 2) compileCore_loop.simps) simp
qed


lemma parse_escape_x:
  assumes "i + 1 < length src" and "src ! (i + 1) = 120 \<or> src ! (i + 1) = 88"
  shows "parse_escape src i =
     (if i + 3 \<ge> length src then Failure (ParseQuotedName_BadHexLength i)
      else
        (case ParseInt (slice src (i + 2) (i + 4)) 16 of
           None \<Rightarrow> Failure (ParseQuotedName_CannotParseHex i)
         | Some v \<Rightarrow> Ok ([v], i + 4)))"
  using assms by (elim disjE; simp add: parse_escape_def Let_def)

lemma parse_escape_u_brace:
  assumes "i + 2 < length src" and "src ! (i + 1) = 117 \<or> src ! (i + 1) = 85"
    and "src ! (i + 2) = 123"
  shows "parse_escape src i =
     (case parseHex src (i + 3) of
        Failure e \<Rightarrow> Failure (ParseQuotedName_CannotParseUnicode i)
      | Panic \<Rightarrow> Panic
      | Ok end \<Rightarrow>
          if end > i + 9 then Failure (ParseQuotedName_BadUnicodeLengthB i)
          else
            (case ParseInt (slice src (i + 3) end) 16 of
               None \<Rightarrow> Failure ParseQuotedName_ParseInt
             | Some v \<Rightarrow>
                 if end \<ge> length src
                   then Failure (ParseQuotedName_UnicodeTerminationA i)
                 else if src ! end \<noteq> 125
                   then Failure (ParseQuotedName_UnicodeTerminationB i)
                 else Ok ([v], end + 1)))"
  using assms by (elim disjE; simp add: parse_escape_def Let_def)

lemma parse_escape_u_plain:
  assumes "i + 1 < length src" and "src ! (i + 1) = 117 \<or> src ! (i + 1) = 85"
    and "\<not> (i + 2 < length src \<and> src ! (i + 2) = 123)"
  shows "parse_escape src i =
     (if i + 2 \<ge> length src then Failure (ParseQuotedName_BadUnicodeLengthA i)
      else if i + 5 \<ge> length src then Failure (ParseQuotedName_Bad4DigitLengthA i)
      else
        (case parseHex src (i + 2) of
           Failure e \<Rightarrow> Failure (ParseQuotedName_CannotParse4Digit i)
         | Panic \<Rightarrow> Panic
         | Ok end \<Rightarrow>
             if end \<noteq> i + 6 then Failure (ParseQuotedName_Bad4DigitLengthB i)
             else
               (case ParseInt (slice src (i + 2) end) 16 of
                  None \<Rightarrow> Failure ParseQuotedName_ParseInt
                | Some v \<Rightarrow> Ok ([v], end))))"
  using assms by (elim disjE; simp add: parse_escape_def Let_def)

lemma hex_run_shift:
  assumes "s < length A" and "\<not> is_hex (last A)"
  shows "hex_run (pre @ A @ rest) (length pre + s) = hex_run A s"
proof -
  from assms(1) have "last (drop s A) = last A" and "drop s A \<noteq> []"
    by simp_all
  then have "last A \<in> set (drop s A)"
    by (metis last_in_set)
  then have "takeWhile is_hex (drop s A @ rest) = takeWhile is_hex (drop s A)"
    using assms(2) by (rule takeWhile_append1)
  then show ?thesis
    using assms(1) by (simp add: hex_run_def)
qed

lemma hex_run_le: "s + hex_run A s \<le> length A \<or> hex_run A s = 0"
  using length_takeWhile_le [of is_hex "drop s A"]
  by (cases "s < length A") (auto simp: hex_run_def)

lemma hex_run_stop:
  "s + hex_run A s < length A \<Longrightarrow> \<not> is_hex (A ! (s + hex_run A s))"
  unfolding hex_run_def
  using nth_length_takeWhile [of is_hex "drop s A"]
  by (simp add: add.commute)

lemma slice_shift:
  assumes "b \<le> length A"
  shows "slice (pre @ A @ rest) (length pre + a) (length pre + b) = slice A a b"
  using assms by (simp add: slice_def)

lemma nth_shift:
  "j < length A \<Longrightarrow> (pre @ A @ rest) ! (length pre + j) = A ! j"
  by (simp add: nth_append)


lemma parse_escape_shift:
  assumes ok: "parse_escape A i = Ok (rs, i')"
    and nh: "\<not> is_hex (last A)"
    and lt: "i < length A"
  shows "parse_escape (pre @ A @ rest) (length pre + i) = Ok (rs, length pre + i')"
proof -
  define ctx where "ctx = pre @ A @ rest"
  define k where "k = length pre"
  have nth: "ctx ! (k + j) = A ! j" if "j < length A" for j
    using that by (simp add: ctx_def k_def nth_append)
  have len: "length ctx = k + length A + length rest"
    by (simp add: ctx_def k_def)
  have sl: "slice ctx (k + a) (k + b) = slice A a b" if "b \<le> length A" for a b
    using that by (simp add: ctx_def k_def slice_def)
  have hr: "hex_run ctx (k + s) = hex_run A s" if "s < length A" for s
    using hex_run_shift [OF that nh] by (simp add: ctx_def k_def)
  from ok lt have lt1: "i + 1 < length A"
    by (cases "i + 1 = length A") (auto simp: parse_escape_def)
  have c: "ctx ! (k + i + 1) = A ! (i + 1)"
    using nth [OF lt1] by (simp add: add.assoc)
  have lt1': "k + i + 1 < length ctx"
    using lt1 len by simp
  consider (x) "A ! (i + 1) = 120 \<or> A ! (i + 1) = 88"
    | (ub) "A ! (i + 1) = 117 \<or> A ! (i + 1) = 85" "i + 2 < length A \<and> A ! (i + 2) = 123"
    | (up) "A ! (i + 1) = 117 \<or> A ! (i + 1) = 85" "\<not> (i + 2 < length A \<and> A ! (i + 2) = 123)"
    | (other) "A ! (i + 1) \<noteq> 120" "A ! (i + 1) \<noteq> 88" "A ! (i + 1) \<noteq> 117" "A ! (i + 1) \<noteq> 85"
    by blast
  then have "parse_escape ctx (k + i) = Ok (rs, k + i')"
  proof cases
    case x
    from ok have a: "i + 3 < length A"
      and b: "ParseInt (slice A (i + 2) (i + 4)) 16 = Some (hd rs)"
      and r: "rs = [hd rs]" "i' = i + 4"
      unfolding parse_escape_x [OF lt1 x]
      by (auto split: if_splits option.splits)
    have x': "ctx ! (k + i + 1) = 120 \<or> ctx ! (k + i + 1) = 88"
      using x c by simp
    have s: "slice ctx (k + i + 2) (k + i + 4) = slice A (i + 2) (i + 4)"
      using sl [of "i + 4" "i + 2"] a by (simp add: add.assoc)
    show ?thesis
      unfolding parse_escape_x [OF lt1' x']
      using a len r s b by simp
  next
    case ub
    obtain e where phA: "parseHex A (i + 3) = Ok e"
      using ok
      unfolding parse_escape_u_brace [OF conjunct1 [OF ub(2)] ub(1) conjunct2 [OF ub(2)]]
      by (cases "parseHex A (i + 3)") auto
    from ok have a: "\<not> e > i + 9"
      and b: "ParseInt (slice A (i + 3) e) 16 = Some (hd rs)"
      and e: "e < length A" "A ! e = 125"
      and res: "rs = [hd rs]" "i' = e + 1"
      unfolding parse_escape_u_brace [OF conjunct1 [OF ub(2)] ub(1) conjunct2 [OF ub(2)]] phA
      by (auto split: if_splits option.splits)
    from phA have r: "hex_run A (i + 3) \<noteq> 0" "e = i + 3 + hex_run A (i + 3)"
      by (auto simp: parseHex_eq split: if_splits)
    have u': "ctx ! (k + i + 1) = 117 \<or> ctx ! (k + i + 1) = 85"
      using ub(1) c by simp
    have b': "k + i + 2 < length ctx" "ctx ! (k + i + 2) = 123"
      using ub(2) len nth [of "i + 2"] by (simp_all add: add.assoc)
    have "hex_run ctx (k + (i + 3)) = hex_run A (i + 3)"
      using hr [of "i + 3"] e(1) r by simp
    then have ph: "parseHex ctx (k + i + 3) = Ok (k + e)"
      using r by (simp add: parseHex_eq add.assoc)
    have s: "slice ctx (k + i + 3) (k + e) = slice A (i + 3) e"
      using sl [of e "i + 3"] e(1) by (simp add: add.assoc)
    have n: "ctx ! (k + e) = 125"
      using nth [OF e(1)] e(2) by simp
    show ?thesis
      unfolding parse_escape_u_brace [OF b'(1) u' b'(2)] ph
      using a e(1) len res s b n by simp
  next
    case up
    from ok have a: "i + 5 < length A"
      unfolding parse_escape_u_plain [OF lt1 up]
      by (auto split: if_splits)
    from ok a have phA: "parseHex A (i + 2) = Ok (i + 6)"
      unfolding parse_escape_u_plain [OF lt1 up]
      by (cases "parseHex A (i + 2)") (auto split: if_splits)
    from ok a have b: "ParseInt (slice A (i + 2) (i + 6)) 16 = Some (hd rs)"
      and res: "rs = [hd rs]" "i' = i + 6"
      unfolding parse_escape_u_plain [OF lt1 up] phA
      by (auto split: if_splits option.splits)
    from phA have r: "hex_run A (i + 2) = 4"
      by (auto simp: parseHex_eq split: if_splits)
    have u': "ctx ! (k + i + 1) = 117 \<or> ctx ! (k + i + 1) = 85"
      using up(1) c by simp
    have b': "\<not> (k + i + 2 < length ctx \<and> ctx ! (k + i + 2) = 123)"
      using up(2) a(1) nth [of "i + 2"] by (simp add: add.assoc)
    have "hex_run ctx (k + (i + 2)) = 4"
      using hr [of "i + 2"] a r by simp
    then have ph: "parseHex ctx (k + i + 2) = Ok (k + i + 6)"
      by (simp add: parseHex_eq add.assoc)
    have s: "slice ctx (k + i + 2) (k + i + 6) = slice A (i + 2) (i + 6)"
      using sl [of "i + 6" "i + 2"] a(1) by (simp add: add.assoc)
    show ?thesis
      unfolding parse_escape_u_plain [OF lt1' u' b'] ph
      using a(1) len res s b by simp
  next
    case other
    have c': "ctx ! (k + i + 1) \<noteq> 120" "ctx ! (k + i + 1) \<noteq> 88"
      "ctx ! (k + i + 1) \<noteq> 117" "ctx ! (k + i + 1) \<noteq> 85"
      using other c by simp_all
    from ok show ?thesis
      unfolding parse_escape_simple [OF lt1 other] parse_escape_simple [OF lt1' c'] c
      by simp
  qed
  then show ?thesis
    by (simp add: ctx_def k_def)
qed


lemma parseQuotedName_loop_shift:
  "parseQuotedName_loop A q st i buf = Ok (nm, e) \<Longrightarrow> \<not> is_hex (last A)
     \<Longrightarrow> parseQuotedName_loop (pre @ A @ rest) q st' (length pre + i) buf
         = Ok (nm, length pre + e)"
proof (induction A q st i buf rule: parseQuotedName_loop.induct)
  case (1 src cc start i buf)
  note unf = parseQuotedName_loop.simps [of src cc start i buf]
  note unf' = parseQuotedName_loop.simps [of "pre @ src @ rest" cc st' "length pre + i" buf]
  from "1.prems"(1) have lt: "i < length src"
    by (subst (asm) unf) (simp split: if_splits)
  then have lt': "length pre + i < length (pre @ src @ rest)"
    and nth: "(pre @ src @ rest) ! (length pre + i) = src ! i"
    by (simp_all add: nth_append)
  show ?case
  proof (cases "src ! i = cc")
    case True
    with "1.prems"(1) lt have "nm = go_string buf" "e = i + 1"
      by (subst (asm) unf; simp add: Let_def)+
    with True lt' nth show ?thesis
      by (subst unf') (simp add: Let_def)
  next
    case ncc: False
    show ?thesis
    proof (cases "src ! i = 92")
      case True
      with "1.prems"(1) lt ncc obtain rs i' where
        esc: "parse_escape src i = Ok (rs, i')"
        and r: "parseQuotedName_loop src cc start i' (buf @ rs) = Ok (nm, e)"
        by (subst (asm) unf) (auto simp: Let_def split: outcome.splits)
      have "parseQuotedName_loop (pre @ src @ rest) cc st' (length pre + i') (buf @ rs)
          = Ok (nm, length pre + e)"
        using "1.IH"(1) [OF lt refl ncc True esc refl r "1.prems"(2)] .
      moreover have "parse_escape (pre @ src @ rest) (length pre + i) = Ok (rs, length pre + i')"
        using parse_escape_shift [OF esc "1.prems"(2) lt] .
      ultimately show ?thesis
        using True ncc lt' nth by (subst unf') (simp add: Let_def)
    next
      case False
      with "1.prems"(1) lt ncc have
        "parseQuotedName_loop src cc start (i + 1) (buf @ [src ! i]) = Ok (nm, e)"
        by (subst (asm) unf) (simp add: Let_def)
      then have "parseQuotedName_loop (pre @ src @ rest) cc st' (length pre + (i + 1))
          (buf @ [src ! i]) = Ok (nm, length pre + e)"
        using "1.IH"(2) [OF lt refl ncc False _ "1.prems"(2)] by simp
      then show ?thesis
        using False ncc lt' nth by (subst unf') (simp add: Let_def)
    qed
  qed
qed

lemma parseQuotedName_append:
  assumes "parseQuotedName (raw @ [q]) q 0 = Ok (nm, length raw + 1)"
    and "q = 34 \<or> q = 39"
  shows "parseQuotedName (pre @ raw @ q # rest) q (length pre)
      = Ok (nm, length pre + length raw + 1)"
proof -
  have "\<not> is_hex (last (raw @ [q]))"
    using assms(2) by (auto simp: is_hex_def)
  from parseQuotedName_loop_shift
    [OF assms(1) [unfolded parseQuotedName_def] this, of pre rest "length pre"]
  show ?thesis
    by (simp add: parseQuotedName_def)
qed


lemma skipSpaces_at:
  assumes "src = pre @ w @ rest" and "list_all ws w" and "stops ws rest"
  shows "skipSpaces src (length pre) = length (pre @ w)"
  using skipSpaces_append [OF assms(2,3)] assms(1) by simp

lemma parseNumber_at:
  assumes "src = pre @ d @ rest" and "d \<noteq> []" and "list_all is_digit d"
    and "stops is_digit rest" and "pre \<noteq> []"
  shows "parseNumber src (length pre) = Ok (length (pre @ d))"
  using parseNumber_append [OF assms(2-5)] assms(1) by simp

lemma parseBareName_at:
  assumes "src = pre @ n @ rest" and "n \<noteq> []" and "list_all name_char n"
    and "stops name_char rest"
  shows "parseBareName src (length pre) = Ok (go_string n, length (pre @ n))"
  using parseBareName_append [OF assms(2-4)] assms(1) by simp

lemma parseQuotedName_at:
  assumes "src = pre @ raw @ q # rest"
    and "parseQuotedName (raw @ [q]) q 0 = Ok (nm, length raw + 1)"
    and "q = 34 \<or> q = 39"
  shows "parseQuotedName src q (length pre) = Ok (nm, length (pre @ raw @ [q]))"
  using parseQuotedName_append [OF assms(2,3)] assms(1) by simp

lemma slice_at:
  assumes "src = pre @ d @ rest"
  shows "slice src (length pre) (length (pre @ d)) = d"
  using assms by (simp add: slice_def)

lemma nth_at:
  assumes "src = pre @ c # rest"
  shows "src ! length pre = c" and "length pre < length src"
  using assms by simp_all

lemma ws_not_digit: "ws c \<Longrightarrow> \<not> is_digit c"
  by (auto simp: ws_def is_digit_def IsSpace_def IsControl_def)

lemma ws_not_name_char: "ws c \<Longrightarrow> \<not> name_char c"
  by (auto simp: ws_def name_char_def)

lemma stops_ws_append:
  "list_all ws w \<Longrightarrow> \<not> P c \<Longrightarrow> (\<And>x. ws x \<Longrightarrow> \<not> P x) \<Longrightarrow> stops P (w @ c # rest)"
  by (cases w) auto

lemma compile_number_core:
  assumes src: "src = pre @ [91] @ w1 @ d @ w2 @ [93] @ rest"
    and w: "list_all ws w1" "list_all ws w2"
    and d: "d \<noteq> []" "list_all is_digit d" "ParseInt d 10 = Some num"
  shows "compile_step src (length pre) acc
      = Ok (length (pre @ [91] @ w1 @ d @ w2 @ [93]),
            acc @ [NumberIndexer (word_of_int num)])"
proof -
  define p2 where "p2 = length (pre @ [91] @ w1)"
  define p3 where "p3 = length (pre @ [91] @ w1 @ d)"
  define p4 where "p4 = length (pre @ [91] @ w1 @ d @ w2)"
  obtain c d' where dc: "d = c # d'" and c: "is_digit c"
    using d(1,2) by (cases d) auto
  have c0: "src ! length pre = 91" "length pre < length src"
    using nth_at [of src pre 91 "w1 @ d @ w2 @ [93] @ rest"] src by simp_all
  have sk1: "skipSpaces src (Suc (length pre)) = p2"
    using skipSpaces_at [of src "pre @ [91]" w1 "d @ w2 @ [93] @ rest"] src w(1) c dc
      ws_not_digit [of c]
    by (auto simp: p2_def)
  have c2: "src ! p2 = c" "p2 < length src"
    using nth_at [of src "pre @ [91] @ w1" c "d' @ w2 @ [93] @ rest"] src dc
    by (simp_all add: p2_def)
  have "stops is_digit (w2 @ 93 # rest)"
    by (rule stops_ws_append [OF w(2) _ ws_not_digit]) (simp add: is_digit_def)
  then have pn: "parseNumber src p2 = Ok p3"
    using parseNumber_at [of src "pre @ [91] @ w1" d "w2 @ 93 # rest"] d src
    by (simp add: p2_def p3_def)
  have sl: "slice src p2 p3 = d"
    using slice_at [of src "pre @ [91] @ w1" d "w2 @ 93 # rest"] src
    by (simp add: p2_def p3_def)
  have sk2: "skipSpaces src p3 = p4"
    using skipSpaces_at [of src "pre @ [91] @ w1 @ d" w2 "93 # rest"] src w(2)
    by (simp add: p3_def p4_def ws_def IsSpace_def IsControl_def)
  have c4: "src ! p4 = 93" "p4 < length src"
    using nth_at [of src "pre @ [91] @ w1 @ d @ w2" 93 rest] src
    by (simp_all add: p4_def)
  have bo: "bracket_operand src p2 = Ok (NumberIndexer (word_of_int num), p3)"
    using c c2 pn sl d(3) by (simp add: bracket_operand_def is_digit_def)
  have "compile_bracket src (length pre) acc
      = Ok (p4 + 1, acc @ [NumberIndexer (word_of_int num)])"
    using sk1 c2 bo sk2 c4
    by (simp add: compile_bracket_def Let_def)
  then show ?thesis
    using c0 by (simp add: compile_step_def Let_def IsSpace_def IsControl_def p4_def)
qed


lemma compile_quoted_core:
  assumes src: "src = pre @ [91] @ w1 @ [q] @ raw @ [q] @ w2 @ [93] @ rest"
    and w: "list_all ws w1" "list_all ws w2"
    and q: "q = 34 \<or> q = 39"
    and pq: "parseQuotedName (raw @ [q]) q 0 = Ok (nm, length raw + 1)"
  shows "compile_step src (length pre) acc
      = Ok (length (pre @ [91] @ w1 @ [q] @ raw @ [q] @ w2 @ [93]), acc @ [NameIndexer nm])"
proof -
  define p2 where "p2 = length (pre @ [91] @ w1)"
  define p3 where "p3 = length (pre @ [91] @ w1 @ [q] @ raw @ [q])"
  define p4 where "p4 = length (pre @ [91] @ w1 @ [q] @ raw @ [q] @ w2)"
  have nq: "\<not> ws q"
    using q by (auto simp: ws_def IsSpace_def IsControl_def)
  have c0: "src ! length pre = 91" "length pre < length src"
    using nth_at [of src pre 91 "w1 @ [q] @ raw @ [q] @ w2 @ [93] @ rest"] src by simp_all
  have sk1: "skipSpaces src (Suc (length pre)) = p2"
    using skipSpaces_at [of src "pre @ [91]" w1 "[q] @ raw @ [q] @ w2 @ [93] @ rest"]
      src w(1) nq
    by (auto simp: p2_def)
  have c2: "src ! p2 = q" "p2 < length src"
    using nth_at [of src "pre @ [91] @ w1" q "raw @ [q] @ w2 @ [93] @ rest"] src
    by (simp_all add: p2_def)
  have pn: "parseQuotedName src q (Suc p2) = Ok (nm, p3)"
    using parseQuotedName_at [of src "pre @ [91] @ w1 @ [q]" raw q "w2 @ 93 # rest" nm]
      src pq q
    by (simp add: p2_def p3_def)
  have sk2: "skipSpaces src p3 = p4"
    using skipSpaces_at [of src "pre @ [91] @ w1 @ [q] @ raw @ [q]" w2 "93 # rest"] src w(2)
    by (simp add: p3_def p4_def ws_def IsSpace_def IsControl_def)
  have c4: "src ! p4 = 93" "p4 < length src"
    using nth_at [of src "pre @ [91] @ w1 @ [q] @ raw @ [q] @ w2" 93 rest] src
    by (simp_all add: p4_def)
  have bo: "bracket_operand src p2 = Ok (NameIndexer nm, p3)"
    using q c2 pn by (elim disjE; simp add: bracket_operand_def Let_def)
  have "compile_bracket src (length pre) acc = Ok (p4 + 1, acc @ [NameIndexer nm])"
    using sk1 c2 bo sk2 c4
    by (simp add: compile_bracket_def Let_def)
  then show ?thesis
    using c0 by (simp add: compile_step_def Let_def IsSpace_def IsControl_def p4_def)
qed

lemma name_char_hd:
  assumes "n \<noteq> []" and "list_all name_char n"
  obtains c n' where "n = c # n'" and "name_char c" and "\<not> ws c" and "c \<noteq> 40"
proof -
  from assms obtain c n' where n: "n = c # n'" and c: "name_char c"
    by (cases n) auto
  from c have "\<not> ws c" "c \<noteq> 40"
    by (auto simp: name_char_def ws_def bare_stop_def)
  with n c show ?thesis by (rule that)
qed

lemma compile_function_core:
  assumes src: "src = pre @ [46] @ w1 @ [40] @ w2 @ f @ w3 @ [41] @ rest"
    and w: "list_all ws w1" "list_all ws w2" "list_all ws w3"
    and f: "f \<noteq> []" "list_all name_char f"
  shows "compile_step src (length pre) acc
      = Ok (length (pre @ [46] @ w1 @ [40] @ w2 @ f @ w3 @ [41]),
            acc @ [FunctionOperand (go_string f)])"
proof -
  define p2 where "p2 = length (pre @ [46] @ w1)"
  define p3 where "p3 = length (pre @ [46] @ w1 @ [40] @ w2)"
  define p4 where "p4 = length (pre @ [46] @ w1 @ [40] @ w2 @ f)"
  define p5 where "p5 = length (pre @ [46] @ w1 @ [40] @ w2 @ f @ w3)"
  obtain c f' where fc: "f = c # f'" and c: "\<not> ws c"
    using f by (rule name_char_hd)
  have c0: "src ! length pre = 46" "length pre < length src"
    using nth_at [of src pre 46 "w1 @ [40] @ w2 @ f @ w3 @ [41] @ rest"] src by simp_all
  have sk1: "skipSpaces src (Suc (length pre)) = p2"
    using skipSpaces_at [of src "pre @ [46]" w1 "[40] @ w2 @ f @ w3 @ [41] @ rest"] src w(1)
    by (simp add: p2_def ws_def IsSpace_def IsControl_def)
  have c2: "src ! p2 = 40" "p2 < length src"
    using nth_at [of src "pre @ [46] @ w1" 40 "w2 @ f @ w3 @ [41] @ rest"] src
    by (simp_all add: p2_def)
  have sk2: "skipSpaces src (Suc p2) = p3"
    using skipSpaces_at [of src "pre @ [46] @ w1 @ [40]" w2 "f @ w3 @ [41] @ rest"]
      src w(2) fc c
    by (simp add: p2_def p3_def)
  have "stops name_char (w3 @ 41 # rest)"
    by (rule stops_ws_append [OF w(3) _ ws_not_name_char])
       (simp add: name_char_def bare_stop_def)
  then have pb: "parseBareName src p3 = Ok (go_string f, p4)"
    using parseBareName_at [of src "pre @ [46] @ w1 @ [40] @ w2" f "w3 @ 41 # rest"] f src
    by (simp add: p3_def p4_def)
  have sk3: "skipSpaces src p4 = p5"
    using skipSpaces_at [of src "pre @ [46] @ w1 @ [40] @ w2 @ f" w3 "41 # rest"] src w(3)
    by (simp add: p4_def p5_def ws_def IsSpace_def IsControl_def)
  have c5: "src ! p5 = 41" "p5 < length src"
    using nth_at [of src "pre @ [46] @ w1 @ [40] @ w2 @ f @ w3" 41 rest] src
    by (simp_all add: p5_def)
  have "compile_dot src (length pre) acc = Ok (p5 + 1, acc @ [FunctionOperand (go_string f)])"
    using sk1 c2 sk2 pb sk3 c5
    by (simp add: compile_dot_def Let_def)
  then show ?thesis
    using c0 by (simp add: compile_step_def Let_def IsSpace_def IsControl_def p5_def)
qed

lemma compile_name_core:
  assumes src: "src = pre @ [46] @ w1 @ n @ rest"
    and w: "list_all ws w1"
    and n: "n \<noteq> []" "list_all name_char n"
    and rest: "stops name_char rest"
  shows "compile_step src (length pre) acc
      = Ok (skipSpaces src (length (pre @ [46] @ w1 @ n)), acc @ [NameIndexer (go_string n)])"
proof -
  define p2 where "p2 = length (pre @ [46] @ w1)"
  define p3 where "p3 = length (pre @ [46] @ w1 @ n)"
  obtain c n' where nc: "n = c # n'" and c: "\<not> ws c" "c \<noteq> 40"
    using n by (rule name_char_hd)
  have c0: "src ! length pre = 46" "length pre < length src"
    using nth_at [of src pre 46 "w1 @ n @ rest"] src by simp_all
  have sk1: "skipSpaces src (Suc (length pre)) = p2"
    using skipSpaces_at [of src "pre @ [46]" w1 "n @ rest"] src w(1) nc c
    by (simp add: p2_def)
  have c2: "src ! p2 = c" "p2 < length src"
    using nth_at [of src "pre @ [46] @ w1" c "n' @ rest"] src nc
    by (simp_all add: p2_def)
  have pb: "parseBareName src p2 = Ok (go_string n, p3)"
    using parseBareName_at [of src "pre @ [46] @ w1" n rest] n src rest
    by (simp add: p2_def p3_def)
  have "compile_dot src (length pre) acc
      = Ok (skipSpaces src p3, acc @ [NameIndexer (go_string n)])"
    using sk1 c2 c(2) pb
    by (simp add: compile_dot_def Let_def)
  then show ?thesis
    using c0 by (simp add: compile_step_def Let_def IsSpace_def IsControl_def p3_def)
qed


lemma compileCore_loop_step:
  assumes "compile_step src i acc = Ok (i', acc')" and "i < length src"
  shows "compileCore_loop src i acc = compileCore_loop src i' acc'"
  using assms by (subst compileCore_loop.simps) simp

lemma skip_gap:
  assumes "src = pre @ w0 @ c # rest" and "list_all ws w0" and "c = 91 \<or> c = 46"
  shows "compileCore_loop src (length pre) acc = compileCore_loop src (length (pre @ w0)) acc"
proof -
  have "\<not> ws c"
    using assms(3) by (auto simp: ws_def IsSpace_def IsControl_def)
  then have "skipSpaces src (length pre) = length (pre @ w0)"
    using skipSpaces_at [of src pre w0 "c # rest"] assms(1,2) by simp
  then show ?thesis
    using compileCore_loop_skip [of src "length pre" acc] by simp
qed

lemma compile_segment:
  assumes src: "src = pre @ render_segment g s @ rest"
    and g: "gaps_ok g"
    and s: "segment_step s = Some a"
    and rest: "stops name_char rest"
    and pre: "pre \<noteq> []"
  shows "compileCore_loop src (length pre) acc
      = compileCore_loop src (length (pre @ render_segment g s)) (acc @ [a])"
proof -
  obtain w0 w1 w2 w3 where gd: "g = (w0, w1, w2, w3)"
    by (cases g) auto
  from g gd have w: "list_all ws w0" "list_all ws w1" "list_all ws w2" "list_all ws w3"
    by simp_all
  show ?thesis
  proof (cases s)
    case (SegNumber d)
    with s obtain num where d: "d \<noteq> []" "list_all is_digit d" "ParseInt d 10 = Some num"
      and a: "a = NumberIndexer (word_of_int num)"
      by (auto split: if_splits)
    have e: "src = (pre @ w0) @ [91] @ w1 @ d @ w2 @ [93] @ rest"
      using src gd SegNumber by simp
    have "compileCore_loop src (length pre) acc = compileCore_loop src (length (pre @ w0)) acc"
      using skip_gap [of src pre w0 91 "w1 @ d @ w2 @ [93] @ rest"] e w(1) by simp
    also have "\<dots> = compileCore_loop src (length ((pre @ w0) @ [91] @ w1 @ d @ w2 @ [93]))
        (acc @ [a])"
      using compile_number_core [OF e w(2,3) d, of acc] e a
      by (intro compileCore_loop_step) simp_all
    finally show ?thesis
      using gd SegNumber by simp
  next
    case (SegQuoted q raw)
    with s obtain nm where q: "q = 34 \<or> q = 39"
      and pq: "parseQuotedName (raw @ [q]) q 0 = Ok (nm, length raw + 1)"
      and a: "a = NameIndexer nm"
      by (auto split: if_splits outcome.splits)
    have e: "src = (pre @ w0) @ [91] @ w1 @ [q] @ raw @ [q] @ w2 @ [93] @ rest"
      using src gd SegQuoted by simp
    have "compileCore_loop src (length pre) acc = compileCore_loop src (length (pre @ w0)) acc"
      using skip_gap [of src pre w0 91 "w1 @ [q] @ raw @ [q] @ w2 @ [93] @ rest"] e w(1)
      by simp
    also have "\<dots> = compileCore_loop src
        (length ((pre @ w0) @ [91] @ w1 @ [q] @ raw @ [q] @ w2 @ [93])) (acc @ [a])"
      using compile_quoted_core [OF e w(2,3) q pq, of acc] e a
      by (intro compileCore_loop_step) simp_all
    finally show ?thesis
      using gd SegQuoted by simp
  next
    case (SegName n)
    with s have n: "n \<noteq> []" "list_all name_char n" and a: "a = NameIndexer (go_string n)"
      by (auto split: if_splits)
    have e: "src = (pre @ w0) @ [46] @ w1 @ n @ rest"
      using src gd SegName by simp
    have "compileCore_loop src (length pre) acc = compileCore_loop src (length (pre @ w0)) acc"
      using skip_gap [of src pre w0 46 "w1 @ n @ rest"] e w(1) by simp
    also have "\<dots> = compileCore_loop src
        (skipSpaces src (length ((pre @ w0) @ [46] @ w1 @ n))) (acc @ [a])"
      using compile_name_core [OF e w(2) n rest, of acc] e a
      by (intro compileCore_loop_step) simp_all
    also have "\<dots> = compileCore_loop src (length ((pre @ w0) @ [46] @ w1 @ n)) (acc @ [a])"
      by (rule compileCore_loop_skip [symmetric])
    finally show ?thesis
      using gd SegName by simp
  next
    case (SegFunction f)
    with s have f: "f \<noteq> []" "list_all name_char f"
      and a: "a = FunctionOperand (go_string f)"
      by (auto split: if_splits)
    have e: "src = (pre @ w0) @ [46] @ w1 @ [40] @ w2 @ f @ w3 @ [41] @ rest"
      using src gd SegFunction by simp
    have "compileCore_loop src (length pre) acc = compileCore_loop src (length (pre @ w0)) acc"
      using skip_gap [of src pre w0 46 "w1 @ [40] @ w2 @ f @ w3 @ [41] @ rest"] e w(1)
      by simp
    also have "\<dots> = compileCore_loop src
        (length ((pre @ w0) @ [46] @ w1 @ [40] @ w2 @ f @ w3 @ [41])) (acc @ [a])"
      using compile_function_core [OF e w(2,3,4) f, of acc] e a
      by (intro compileCore_loop_step) simp_all
    finally show ?thesis
      using gd SegFunction by simp
  qed
qed

lemma stops_render:
  assumes "gaps_ok g"
  shows "stops name_char (render_segment g s @ rest)"
proof -
  obtain w0 w1 w2 w3 where gd: "g = (w0, w1, w2, w3)"
    by (cases g) auto
  have b: "\<not> name_char 91" "\<not> name_char 46"
    by (simp_all add: name_char_def bare_stop_def)
  show ?thesis
    using assms gd b
    by (cases s; cases w0) (auto dest: ws_not_name_char)
qed

lemma stops_body_rest:
  assumes "list_all spaced_ok segs" and "stops name_char rest"
  shows "stops name_char (body segs @ rest)"
proof (cases segs)
  case Nil
  with assms(2) show ?thesis
    by (simp add: body_def)
next
  case (Cons gs segs')
  obtain g s where "gs = (g, s)" by (cases gs) auto
  with Cons assms(1) show ?thesis
    using stops_render [of g s "body segs' @ rest"]
    by (simp add: body_def spaced_ok_def)
qed

lemma compile_prefix:
  "list_all spaced_ok segs \<Longrightarrow> stops name_char rest \<Longrightarrow> pre \<noteq> []
     \<Longrightarrow> compileCore_loop (pre @ body segs @ rest) (length pre) acc
         = compileCore_loop (pre @ body segs @ rest) (length (pre @ body segs))
             (acc @ map (\<lambda>gs. the (segment_step (snd gs))) segs)"
proof (induction segs arbitrary: pre acc)
  case Nil
  show ?case
    by (simp add: body_def)
next
  case (Cons gs segs)
  obtain g s where gs: "gs = (g, s)" by (cases gs) auto
  from Cons.prems(1) have ok: "list_all spaced_ok segs" and "spaced_ok gs"
    by simp_all
  with gs obtain a where g: "gaps_ok g" and a: "segment_step s = Some a"
    by (auto simp: spaced_ok_def)
  define src where "src = pre @ body (gs # segs) @ rest"
  have e: "src = pre @ render_segment g s @ (body segs @ rest)"
    by (simp add: src_def body_def gs)
  have e': "src = (pre @ render_segment g s) @ body segs @ rest"
    by (simp add: e)
  have "compileCore_loop src (length pre) acc
      = compileCore_loop src (length (pre @ render_segment g s)) (acc @ [a])"
    using compile_segment
      [OF e g a stops_body_rest [OF ok Cons.prems(2)] Cons.prems(3)] .
  also have "\<dots> = compileCore_loop src (length ((pre @ render_segment g s) @ body segs))
      ((acc @ [a]) @ map (\<lambda>gs. the (segment_step (snd gs))) segs)"
    unfolding e'
    using Cons.IH [OF ok Cons.prems(2), of "pre @ render_segment g s" "acc @ [a]"]
      Cons.prems(3)
    by simp
  finally show ?case
    using gs a by (simp add: src_def body_def)
qed

lemma compile_body:
  assumes "list_all spaced_ok segs" and "list_all ws wt" and "pre \<noteq> []"
  shows "compileCore_loop (pre @ body segs @ wt) (length pre) acc
      = Ok (acc @ map (\<lambda>gs. the (segment_step (snd gs))) segs)"
proof -
  define src where "src = pre @ body segs @ wt"
  define acc' where "acc' = acc @ map (\<lambda>gs. the (segment_step (snd gs))) segs"
  have st: "stops name_char wt"
    using assms(2) by (cases wt) (auto dest: ws_not_name_char)
  have "skipSpaces src (length (pre @ body segs)) = length ((pre @ body segs) @ wt)"
    using skipSpaces_at [of src "pre @ body segs" wt "[]"] assms(2) by (simp add: src_def)
  then have "compileCore_loop src (length (pre @ body segs)) acc'
      = compileCore_loop src (length src) acc'"
    using compileCore_loop_skip [of src "length (pre @ body segs)" acc']
    by (simp add: src_def)
  also have "\<dots> = Ok acc'"
    by (subst compileCore_loop.simps) simp
  finally show ?thesis
    using compile_prefix [OF assms(1) st assms(3), of acc]
    by (simp add: src_def acc'_def)
qed

lemma parseNumber_minus:
  assumes "0 < st" and "st < length src" and "src ! st = 45"
  shows "parseNumber src st = Failure ParseNumber_Empty"
proof -
  have "parseNumber_loop src st = st"
    using assms by (subst parseNumber_loop.simps) (simp add: Let_def)
  then show ?thesis
    by (simp add: parseNumber_def)
qed

lemma compile_minus_core:
  assumes src: "src = pre @ [91] @ w1 @ [45] @ rest" and w: "list_all ws w1"
  shows "compile_step src (length pre) acc = Failure (Compile_BadNumber (length (pre @ [91] @ w1)))"
proof -
  define p2 where "p2 = length (pre @ [91] @ w1)"
  have c0: "src ! length pre = 91" "length pre < length src"
    using nth_at [of src pre 91 "w1 @ [45] @ rest"] src by simp_all
  have sk1: "skipSpaces src (Suc (length pre)) = p2"
    using skipSpaces_at [of src "pre @ [91]" w1 "[45] @ rest"] src w
    by (simp add: p2_def ws_def IsSpace_def IsControl_def)
  have c2: "src ! p2 = 45" "p2 < length src" "0 < p2"
    using nth_at [of src "pre @ [91] @ w1" 45 rest] src
    by (simp_all add: p2_def)
  have "bracket_operand src p2 = Failure (Compile_BadNumber p2)"
    using parseNumber_minus [OF c2(3,2,1)] c2(1) by (simp add: bracket_operand_def)
  then have "compile_bracket src (length pre) acc = Failure (Compile_BadNumber p2)"
    using sk1 c2 by (simp add: compile_bracket_def Let_def)
  then show ?thesis
    using c0 by (simp add: compile_step_def Let_def IsSpace_def IsControl_def p2_def)
qed

lemma Compile_render_path:
  assumes "list_all spaced_ok segs" and "list_all ws wt"
  shows "Compile (render_path segs wt)
      = Ok \<lparr>asts = map (\<lambda>gs. the (segment_step (snd gs))) segs\<rparr>"
  using compile_body [OF assms, of "[36]" "[]"]
  by (simp add: Compile_def compileCore_def render_path_def body_def)

section \<open>Every path that compiles is made of segments\<close>

lemma skipSpaces_drop:
  "i \<le> length src \<Longrightarrow>
     \<exists>w. list_all ws w \<and> drop i src = w @ drop (skipSpaces src i) src"
proof (induction src i rule: skipSpaces.induct)
  case (1 src i)
  show ?case
  proof (cases "i < length src \<and> ws (src ! i)")
    case True
    then have sk: "skipSpaces src i = skipSpaces src (i + 1)"
      by (subst skipSpaces_unfold) simp
    have c: "\<not> (\<not> IsSpace (src ! i) \<and> \<not> IsControl (src ! i))"
      using True by (simp add: ws_def)
    from "1.IH" [OF _ c] True obtain w where
      w: "list_all ws w" "drop (i + 1) src = w @ drop (skipSpaces src (i + 1)) src"
      by auto
    have "drop i src = src ! i # drop (i + 1) src"
      using True by (simp add: Cons_nth_drop_Suc)
    with w True sk have "list_all ws (src ! i # w)
        \<and> drop i src = (src ! i # w) @ drop (skipSpaces src i) src"
      by simp
    then show ?thesis by blast
  next
    case False
    with "1.prems" have "skipSpaces src i = i"
      by (subst skipSpaces_unfold) auto
    then have "list_all ws [] \<and> drop i src = [] @ drop (skipSpaces src i) src"
      by simp
    then show ?thesis by blast
  qed
qed

lemma parseBareName_loop_drop:
  "parseBareName_loop src i buf = (e, buf') \<Longrightarrow> i \<le> length src \<Longrightarrow>
     \<exists>n. list_all name_char n \<and> buf' = buf @ n \<and> drop i src = n @ drop e src
       \<and> e \<le> length src"
proof (induction src i buf rule: parseBareName_loop.induct)
  case (1 src i buf)
  show ?case
  proof (cases "i < length src \<and> name_char (src ! i)")
    case True
    with "1.prems"(1) have r: "parseBareName_loop src (i + 1) (buf @ [src ! i]) = (e, buf')"
      by (subst (asm) parseBareName_loop_unfold) simp
    from True have nc: "\<not> (IsSpace (src ! i) \<or> IsControl (src ! i))" "\<not> bare_stop (src ! i)"
      by (auto simp: name_char_def)
    from "1.IH" [OF _ refl nc r] True obtain n where
      n: "list_all name_char n" "buf' = (buf @ [src ! i]) @ n"
        "drop (i + 1) src = n @ drop e src" "e \<le> length src"
      by auto
    have "drop i src = src ! i # drop (i + 1) src"
      using True by (simp add: Cons_nth_drop_Suc)
    with n True have "list_all name_char (src ! i # n) \<and> buf' = buf @ (src ! i # n)
        \<and> drop i src = (src ! i # n) @ drop e src \<and> e \<le> length src"
      by simp
    then show ?thesis by blast
  next
    case False
    with "1.prems"(1) have "(e, buf') = (i, buf)"
      by (subst (asm) parseBareName_loop_unfold) (auto split: if_splits)
    then have "e = i" "buf' = buf"
      by simp_all
    with "1.prems"(2) have "list_all name_char [] \<and> buf' = buf @ []
        \<and> drop i src = [] @ drop e src \<and> e \<le> length src"
      by simp
    then show ?thesis by blast
  qed
qed

lemma parseBareName_drop:
  assumes "parseBareName src s = Ok (nm, e)" and "s \<le> length src"
  shows "\<exists>n. n \<noteq> [] \<and> list_all name_char n \<and> nm = go_string n
           \<and> drop s src = n @ drop e src \<and> e \<le> length src"
proof -
  obtain e' buf' where l: "parseBareName_loop src s [] = (e', buf')"
    by (cases "parseBareName_loop src s []") auto
  with assms(1) have r: "buf' \<noteq> []" "nm = go_string buf'" "e = e'"
    by (auto simp: parseBareName_def split: if_splits)
  from parseBareName_loop_drop [OF l assms(2)] r show ?thesis
    by auto
qed

lemma parseNumber_loop_drop:
  "0 < i \<Longrightarrow> i \<le> length src \<Longrightarrow>
     \<exists>d. list_all is_digit d \<and> drop i src = d @ drop (parseNumber_loop src i) src
       \<and> parseNumber_loop src i = i + length d \<and> parseNumber_loop src i \<le> length src"
proof (induction src i rule: parseNumber_loop.induct)
  case (1 src i)
  show ?case
  proof (cases "i < length src \<and> is_digit (src ! i)")
    case True
    then have sk: "parseNumber_loop src i = parseNumber_loop src (i + 1)"
      using "1.prems"(1) by (subst parseNumber_loop_unfold) simp_all
    from True "1.prems"(1) have c: "\<not> (i = 0 \<and> src ! i = 45)" "48 \<le> src ! i \<and> src ! i \<le> 57"
      by (auto simp: is_digit_def)
    from "1.IH"(2) [OF _ refl c] True obtain d where
      d: "list_all is_digit d" "drop (i + 1) src = d @ drop (parseNumber_loop src (i + 1)) src"
        "parseNumber_loop src (i + 1) = i + 1 + length d"
        "parseNumber_loop src (i + 1) \<le> length src"
      by auto
    have "drop i src = src ! i # drop (i + 1) src"
      using True by (simp add: Cons_nth_drop_Suc)
    with d True sk have "list_all is_digit (src ! i # d)
        \<and> drop i src = (src ! i # d) @ drop (parseNumber_loop src i) src
        \<and> parseNumber_loop src i = i + length (src ! i # d)
        \<and> parseNumber_loop src i \<le> length src"
      by simp
    then show ?thesis by blast
  next
    case False
    with "1.prems" have "parseNumber_loop src i = i"
      by (subst parseNumber_loop_unfold) auto
    with "1.prems"(2) have "list_all is_digit []
        \<and> drop i src = [] @ drop (parseNumber_loop src i) src
        \<and> parseNumber_loop src i = i + length ([] :: rune list)
        \<and> parseNumber_loop src i \<le> length src"
      by simp
    then show ?thesis by blast
  qed
qed

lemma parseNumber_drop:
  assumes "parseNumber src s = Ok e" and "0 < s" and "s \<le> length src"
  shows "\<exists>d. d \<noteq> [] \<and> list_all is_digit d \<and> drop s src = d @ drop e src
           \<and> slice src s e = d \<and> e \<le> length src"
proof -
  from assms(1) have e: "e = parseNumber_loop src s" "e \<noteq> s"
    by (auto simp: parseNumber_def Let_def split: if_splits)
  from parseNumber_loop_drop [OF assms(2,3)] e obtain d where
    d: "list_all is_digit d" "drop s src = d @ drop e src" "e = s + length d" "e \<le> length src"
    by auto
  with e have "d \<noteq> []" by auto
  moreover have "slice src s e = d"
    using d by (simp add: slice_def)
  ultimately show ?thesis
    using d by blast
qed


lemma parseHex_loop_ge: "s \<le> parseHex_loop src s"
  by (simp add: parseHex_loop_eq)

lemma parse_escape_gt:
  assumes "parse_escape src i = Ok (rs, i')"
  shows "i < i'"
proof -
  have hex_ok: "s \<le> e" if "parseHex src s = Ok e" for s e
    using that by (auto simp: parseHex_eq split: if_splits)
  from assms show ?thesis
    unfolding parse_escape_def Let_def
    by (auto split: if_splits option.splits outcome.splits dest!: hex_ok)
qed

lemma parseQuotedName_loop_end:
  "parseQuotedName_loop src cc start i buf = Ok (nm, e)
     \<Longrightarrow> i < e \<and> e \<le> length src \<and> src ! (e - 1) = cc"
proof (induction src cc start i buf rule: parseQuotedName_loop.induct)
  case (1 src cc start i buf)
  note unf = parseQuotedName_loop.simps [of src cc start i buf]
  from "1.prems" have lt: "i < length src"
    by (subst (asm) unf) (simp split: if_splits)
  show ?case
  proof (cases "src ! i = cc")
    case True
    with "1.prems" lt show ?thesis by (subst (asm) unf) (auto simp: Let_def)
  next
    case ncc: False
    show ?thesis
    proof (cases "src ! i = 92")
      case True
      with "1.prems" lt ncc obtain rs i' where
        esc: "parse_escape src i = Ok (rs, i')"
        and r: "parseQuotedName_loop src cc start i' (buf @ rs) = Ok (nm, e)"
        by (subst (asm) unf) (auto simp: Let_def split: outcome.splits)
      from "1.IH"(1) [OF lt refl ncc True esc refl r] parse_escape_gt [OF esc]
      show ?thesis by simp
    next
      case False
      with "1.prems" lt ncc have
        "parseQuotedName_loop src cc start (i + 1) (buf @ [src ! i]) = Ok (nm, e)"
        by (subst (asm) unf) (simp add: Let_def)
      from "1.IH"(2) [OF lt refl ncc False this] show ?thesis by simp
    qed
  qed
qed

lemma hex_run_restrict:
  assumes "i + hex_run (pre @ A @ rest) (length pre + i) < length A"
  shows "hex_run A i = hex_run (pre @ A @ rest) (length pre + i)"
proof -
  from assms have lt: "i < length A" by simp
  have d: "drop (length pre + i) (pre @ A @ rest) = drop i A @ rest"
    using lt by simp
  have hc: "hex_run (pre @ A @ rest) (length pre + i)
      = length (takeWhile is_hex (drop i A @ rest))"
    unfolding hex_run_def d ..
  have hA: "hex_run A i = length (takeWhile is_hex (drop i A))"
    unfolding hex_run_def ..
  show ?thesis
  proof (cases "\<forall>x\<in>set (drop i A). is_hex x")
    case True
    then have "takeWhile is_hex (drop i A @ rest) = drop i A @ takeWhile is_hex rest"
      by (simp add: takeWhile_append)
    then have "length A - i \<le> hex_run (pre @ A @ rest) (length pre + i)"
      unfolding hc by simp
    with assms show ?thesis by simp
  next
    case False
    then have "takeWhile is_hex (drop i A @ rest) = takeWhile is_hex (drop i A)"
      by (auto simp: takeWhile_append)
    then show ?thesis
      unfolding hc hA by simp
  qed
qed

lemma parse_escape_restrict:
  assumes ok: "parse_escape (pre @ A @ rest) (length pre + i) = Ok (rs, length pre + i')"
    and lt': "i' < length A"
  shows "parse_escape A i = Ok (rs, i')"
proof -
  define ctx where "ctx = pre @ A @ rest"
  define k where "k = length pre"
  have ok': "parse_escape ctx (k + i) = Ok (rs, k + i')"
    using ok by (simp add: ctx_def k_def)
  from parse_escape_gt [OF ok'] have ii: "i < i'" by simp
  with lt' have lt1: "i + 1 < length A" by simp
  have nth: "ctx ! (k + j) = A ! j" if "j < length A" for j
    using that by (simp add: ctx_def k_def nth_append)
  have len: "length ctx = k + length A + length rest"
    by (simp add: ctx_def k_def)
  have sl: "slice ctx (k + a) (k + b) = slice A a b" if "b \<le> length A" for a b
    using that by (simp add: ctx_def k_def slice_def)
  have hr: "hex_run A s = hex_run ctx (k + s)" if "s + hex_run ctx (k + s) < length A" for s
    using hex_run_restrict [of s pre A rest] that by (simp add: ctx_def k_def)
  have c: "ctx ! (k + i + 1) = A ! (i + 1)"
    using nth [OF lt1] by (simp add: add.assoc)
  have lt1': "k + i + 1 < length ctx"
    using lt1 len by simp
  consider (x) "A ! (i + 1) = 120 \<or> A ! (i + 1) = 88"
    | (ub) "A ! (i + 1) = 117 \<or> A ! (i + 1) = 85"
        "k + i + 2 < length ctx \<and> ctx ! (k + i + 2) = 123"
    | (up) "A ! (i + 1) = 117 \<or> A ! (i + 1) = 85"
        "\<not> (k + i + 2 < length ctx \<and> ctx ! (k + i + 2) = 123)"
    | (other) "A ! (i + 1) \<noteq> 120" "A ! (i + 1) \<noteq> 88" "A ! (i + 1) \<noteq> 117" "A ! (i + 1) \<noteq> 85"
    by blast
  then show ?thesis
  proof cases
    case x
    have x': "ctx ! (k + i + 1) = 120 \<or> ctx ! (k + i + 1) = 88"
      using x c by simp
    from ok' have b: "ParseInt (slice ctx (k + i + 2) (k + i + 4)) 16 = Some (hd rs)"
      and r: "rs = [hd rs]" "i' = i + 4"
      unfolding parse_escape_x [OF lt1' x']
      by (auto split: if_splits option.splits)
    have a: "i + 3 < length A"
      using r lt' by simp
    have s: "slice ctx (k + i + 2) (k + i + 4) = slice A (i + 2) (i + 4)"
      using sl [of "i + 4" "i + 2"] a by (simp add: add.assoc)
    show ?thesis
      unfolding parse_escape_x [OF lt1 x]
      using a r s b by simp
  next
    case ub
    have u': "ctx ! (k + i + 1) = 117 \<or> ctx ! (k + i + 1) = 85"
      using ub(1) c by simp
    note pe = parse_escape_u_brace [OF conjunct1 [OF ub(2)] u' conjunct2 [OF ub(2)]]
    obtain ec where phc: "parseHex ctx (k + i + 3) = Ok ec"
      using ok' unfolding pe by (cases "parseHex ctx (k + i + 3)") auto
    from ok' have a: "\<not> ec > k + i + 9"
      and b: "ParseInt (slice ctx (k + i + 3) ec) 16 = Some (hd rs)"
      and e: "ec < length ctx" "ctx ! ec = 125"
      and res: "rs = [hd rs]" "k + i' = ec + 1"
      unfolding pe phc
      by (auto split: if_splits option.splits)
    from phc have r: "hex_run ctx (k + (i + 3)) \<noteq> 0" "ec = k + (i + 3) + hex_run ctx (k + (i + 3))"
      by (auto simp: parseHex_eq add.assoc split: if_splits)
    define e' where "e' = i + 3 + hex_run ctx (k + (i + 3))"
    have ec: "ec = k + e'" "i' = e' + 1"
      using r res by (simp_all add: e'_def)
    have e'lt: "e' < length A"
      using ec lt' by simp
    have hA: "hex_run A (i + 3) = hex_run ctx (k + (i + 3))"
      using hr [of "i + 3"] e'lt by (simp add: e'_def)
    have phA: "parseHex A (i + 3) = Ok e'"
      using r(1) hA by (simp add: parseHex_eq e'_def)
    have b2: "i + 2 < length A" "A ! (i + 2) = 123"
      using ub(2) e'lt nth [of "i + 2"] by (simp_all add: e'_def add.assoc)
    have s: "slice ctx (k + i + 3) (k + e') = slice A (i + 3) e'"
      using sl [of e' "i + 3"] e'lt by (simp add: add.assoc)
    have n: "A ! e' = 125"
      using nth [OF e'lt] e(2) ec by simp
    show ?thesis
      unfolding parse_escape_u_brace [OF b2(1) ub(1) b2(2)] phA
      using a e'lt res ec s b n by simp
  next
    case up
    have u': "ctx ! (k + i + 1) = 117 \<or> ctx ! (k + i + 1) = 85"
      using up(1) c by simp
    note pe = parse_escape_u_plain [OF lt1' u' up(2)]
    from ok' have a: "k + i + 5 < length ctx"
      unfolding pe by (auto split: if_splits)
    from ok' a have phc: "parseHex ctx (k + i + 2) = Ok (k + i + 6)"
      unfolding pe by (cases "parseHex ctx (k + i + 2)") (auto split: if_splits)
    from ok' a have b: "ParseInt (slice ctx (k + i + 2) (k + i + 6)) 16 = Some (hd rs)"
      and res: "rs = [hd rs]" "i' = i + 6"
      unfolding pe phc
      by (auto split: if_splits option.splits)
    from phc have r: "hex_run ctx (k + (i + 2)) = 4"
      by (auto simp: parseHex_eq add.assoc split: if_splits)
    have a': "i + 6 < length A"
      using res lt' by simp
    have hA: "hex_run A (i + 2) = 4"
      using hr [of "i + 2"] a' r by simp
    have phA: "parseHex A (i + 2) = Ok (i + 6)"
      using hA by (simp add: parseHex_eq)
    have b2: "\<not> (i + 2 < length A \<and> A ! (i + 2) = 123)"
      using up(2) a' len nth [of "i + 2"] by (simp add: add.assoc)
    have s: "slice ctx (k + i + 2) (k + i + 6) = slice A (i + 2) (i + 6)"
      using sl [of "i + 6" "i + 2"] a' by (simp add: add.assoc)
    show ?thesis
      unfolding parse_escape_u_plain [OF lt1 up(1) b2] phA
      using a' res s b by simp
  next
    case other
    have c': "ctx ! (k + i + 1) \<noteq> 120" "ctx ! (k + i + 1) \<noteq> 88"
      "ctx ! (k + i + 1) \<noteq> 117" "ctx ! (k + i + 1) \<noteq> 85"
      using other c by simp_all
    from ok' show ?thesis
      unfolding parse_escape_simple [OF lt1 other] parse_escape_simple [OF lt1' c'] c
      by simp
  qed
qed

lemma parseQuotedName_loop_restrict:
  "parseQuotedName_loop ctx q st j buf = Ok (nm, e) \<Longrightarrow> ctx = pre @ A @ rest
     \<Longrightarrow> length pre \<le> j \<Longrightarrow> e = length pre + length A
     \<Longrightarrow> parseQuotedName_loop A q st' (j - length pre) buf = Ok (nm, length A)"
proof (induction ctx q st j buf rule: parseQuotedName_loop.induct)
  case (1 src cc start i buf)
  define i0 where "i0 = i - length pre"
  have i: "i = length pre + i0"
    using "1.prems"(3) by (simp add: i0_def)
  note unf = parseQuotedName_loop.simps [of src cc start i buf]
  note unf' = parseQuotedName_loop.simps [of A cc st' i0 buf]
  from parseQuotedName_loop_end [OF "1.prems"(1)] "1.prems"(4) i
  have i0: "i0 < length A" by simp
  then have lt: "i < length src" and nth: "src ! i = A ! i0"
    using "1.prems"(2) i by (simp_all add: nth_append)
  show ?case
    unfolding i0_def [symmetric]
  proof (cases "src ! i = cc")
    case True
    with "1.prems"(1) lt have "nm = go_string buf" "e = i + 1"
      by (subst (asm) unf; simp add: Let_def)+
    with True i0 nth "1.prems"(4) i show "parseQuotedName_loop A cc st' i0 buf = Ok (nm, length A)"
      by (subst unf') (simp add: Let_def)
  next
    case ncc: False
    show "parseQuotedName_loop A cc st' i0 buf = Ok (nm, length A)"
    proof (cases "src ! i = 92")
      case True
      with "1.prems"(1) lt ncc obtain rs i' where
        esc: "parse_escape src i = Ok (rs, i')"
        and r: "parseQuotedName_loop src cc start i' (buf @ rs) = Ok (nm, e)"
        by (subst (asm) unf) (auto simp: Let_def split: outcome.splits)
      from parse_escape_gt [OF esc] "1.prems"(3) have ge: "length pre \<le> i'"
        by simp
      define i1 where "i1 = i' - length pre"
      have i': "i' = length pre + i1"
        using ge by (simp add: i1_def)
      from parseQuotedName_loop_end [OF r] "1.prems"(4) i'
      have i1: "i1 < length A" by simp
      have "parseQuotedName_loop A cc st' i1 (buf @ rs) = Ok (nm, length A)"
        using "1.IH"(1) [OF lt refl ncc True esc refl r "1.prems"(2) ge "1.prems"(4)]
        by (simp add: i1_def)
      moreover have "parse_escape A i0 = Ok (rs, i1)"
        using parse_escape_restrict [of pre A rest i0 rs i1] esc i1 "1.prems"(2) i i'
        by simp
      ultimately show ?thesis
        using True ncc i0 nth by (subst unf') (simp add: Let_def)
    next
      case False
      with "1.prems"(1) lt ncc have
        r: "parseQuotedName_loop src cc start (i + 1) (buf @ [src ! i]) = Ok (nm, e)"
        by (subst (asm) unf) (simp add: Let_def)
      have "parseQuotedName_loop A cc st' (i + 1 - length pre) (buf @ [src ! i])
          = Ok (nm, length A)"
        using "1.IH"(2) [OF lt refl ncc False r "1.prems"(2) _ "1.prems"(4)] "1.prems"(3)
        by simp
      then have "parseQuotedName_loop A cc st' (i0 + 1) (buf @ [A ! i0]) = Ok (nm, length A)"
        using i nth by simp
      then show ?thesis
        using False ncc i0 nth by (subst unf') (simp add: Let_def)
    qed
  qed
qed

lemma parseQuotedName_drop:
  assumes "parseQuotedName src q s = Ok (nm, e)"
  shows "\<exists>raw. drop s src = raw @ q # drop e src
           \<and> parseQuotedName (raw @ [q]) q 0 = Ok (nm, length raw + 1)"
proof -
  from assms have l: "parseQuotedName_loop src q s s [] = Ok (nm, e)"
    by (simp add: parseQuotedName_def)
  from parseQuotedName_loop_end [OF l] have b: "s < e" "e \<le> length src" "src ! (e - 1) = q"
    by simp_all
  define A where "A = take (e - s) (drop s src)"
  have lenA: "length A = e - s"
    using b by (simp add: A_def)
  have src: "src = take s src @ A @ drop e src"
  proof -
    have "drop s src = A @ drop (e - s) (drop s src)"
      by (simp only: A_def append_take_drop_id)
    also have "drop (e - s) (drop s src) = drop e src"
      using b by simp
    finally have "take s src @ drop s src = take s src @ A @ drop e src"
      by simp
    then show ?thesis by simp
  qed
  have lp: "length (take s src) = s"
    using b by simp
  have "parseQuotedName_loop A q 0 (s - length (take s src)) [] = Ok (nm, length A)"
    using parseQuotedName_loop_restrict [OF l src, of 0] lp lenA b by simp
  then have iso: "parseQuotedName_loop A q 0 0 [] = Ok (nm, length A)"
    using lp by simp
  have ne: "A \<noteq> []"
    using lenA b by auto
  have lq: "last A = q"
  proof -
    have "last A = A ! (length A - 1)"
      using ne by (simp add: last_conv_nth)
    also have "\<dots> = src ! (s + (e - s - 1))"
      using b lenA by (simp add: A_def)
    also have "\<dots> = q"
      using b by simp
    finally show ?thesis .
  qed
  have "butlast A @ [last A] = A"
    using ne by (rule append_butlast_last_id)
  then have bl: "butlast A @ [q] = A"
    by (simp only: lq)
  define raw where "raw = butlast A"
  have A: "A = raw @ [q]"
    using bl by (simp add: raw_def)
  have "drop s src = raw @ q # drop e src"
  proof -
    have "drop s src = drop s (take s src @ A @ drop e src)"
      using src by simp
    also have "\<dots> = A @ drop e src"
      using lp by simp
    finally show ?thesis
      by (simp add: A)
  qed
  moreover have "parseQuotedName (raw @ [q]) q 0 = Ok (nm, length raw + 1)"
    using iso unfolding A by (simp add: parseQuotedName_def)
  ultimately show ?thesis by blast
qed


lemma render_prepend_ws:
  "render_segment (w @ w0, w1, w2, w3) s = w @ render_segment (w0, w1, w2, w3) s"
  by (cases s) simp_all

lemma body_append: "body (xs @ ys) = body xs @ body ys"
  by (simp add: body_def)

lemma absorb_ws:
  assumes "list_all ws w" and "list_all spaced_ok segs" and "list_all ws wt"
  shows "\<exists>segs' wt'. list_all spaced_ok segs' \<and> list_all ws wt'
           \<and> w @ body segs @ wt = body segs' @ wt'"
proof (cases segs)
  case Nil
  then have "list_all spaced_ok [] \<and> list_all ws (w @ wt) \<and> w @ body segs @ wt = body [] @ (w @ wt)"
    using assms(1,3) by (simp add: body_def)
  then show ?thesis by blast
next
  case (Cons gs rest)
  obtain w0 w1 w2 w3 s where gs: "gs = ((w0, w1, w2, w3), s)"
    by (cases gs) auto
  let ?gs' = "((w @ w0, w1, w2, w3), s)"
  have "list_all spaced_ok (?gs' # rest)"
    using assms(1,2) Cons gs by (simp add: spaced_ok_def)
  moreover have "w @ body segs @ wt = body (?gs' # rest) @ wt"
    using Cons gs render_prepend_ws [of w w0 w1 w2 w3 s] by (simp add: body_def)
  ultimately show ?thesis
    using assms(3) by blast
qed

lemma bracket_operand_shape:
  assumes bo: "bracket_operand src st = Ok (a, e1)" and pos: "0 < st" and lt: "st < length src"
  shows "\<exists>seg t. drop st src = t @ drop e1 src \<and> e1 \<le> length src
           \<and> segment_step seg = Some a
           \<and> (\<forall>w1 w2. render_segment ([], w1, w2, []) seg = [91] @ w1 @ t @ w2 @ [93])"
proof (cases "(48 \<le> src ! st \<and> src ! st \<le> 57) \<or> src ! st = 45")
  case True
  with bo obtain num where
    pn: "parseNumber src st = Ok e1"
    and pi: "ParseInt (slice src st e1) 10 = Some num"
    and a: "a = NumberIndexer (word_of_int num)"
    by (auto simp: bracket_operand_def split: outcome.splits option.splits)
  from parseNumber_drop [OF pn pos] lt obtain d where
    d: "d \<noteq> []" "list_all is_digit d" "drop st src = d @ drop e1 src"
      "slice src st e1 = d" "e1 \<le> length src"
    by auto
  have "segment_step (SegNumber d) = Some a"
    using d pi a by simp
  moreover have "\<forall>w1 w2. render_segment ([], w1, w2, []) (SegNumber d)
      = [91] @ w1 @ d @ w2 @ [93]"
    by simp
  ultimately show ?thesis
    using d(3,5) by blast
next
  case False
  define q where "q = src ! st"
  from bo False obtain nm where
    q: "q = 39 \<or> q = 34"
    and pq: "parseQuotedName src q (st + 1) = Ok (nm, e1)"
    and a: "a = NameIndexer nm"
    by (auto simp: bracket_operand_def Let_def q_def split: if_splits outcome.splits)
  from parseQuotedName_drop [OF pq] obtain raw where
    raw: "drop (st + 1) src = raw @ q # drop e1 src"
      "parseQuotedName (raw @ [q]) q 0 = Ok (nm, length raw + 1)"
    by blast
  from parseQuotedName_loop_end [OF pq [unfolded parseQuotedName_def]]
  have e1: "e1 \<le> length src" by simp
  have "drop st src = q # drop (st + 1) src"
    using lt by (simp add: q_def Cons_nth_drop_Suc)
  with raw(1) have dr: "drop st src = ([q] @ raw @ [q]) @ drop e1 src"
    by simp
  have "segment_step (SegQuoted q raw) = Some a"
    using q raw(2) a by auto
  moreover have "\<forall>w1 w2. render_segment ([], w1, w2, []) (SegQuoted q raw)
      = [91] @ w1 @ ([q] @ raw @ [q]) @ w2 @ [93]"
    by simp
  ultimately show ?thesis
    using dr e1 by blast
qed

lemma single_segment:
  assumes "gaps_ok g" and "segment_step s = Some a" and "drop i src = render_segment g s @ w @ drop i' src"
    and "list_all ws w" and "i' \<le> length src"
  shows "\<exists>w segs. list_all ws w \<and> list_all spaced_ok segs
           \<and> drop i src = body segs @ w @ drop i' src \<and> i' \<le> length src"
proof -
  have "list_all spaced_ok [(g, s)]"
    using assms(1,2) by (simp add: spaced_ok_def)
  moreover have "drop i src = body [(g, s)] @ w @ drop i' src"
    using assms(3) by (simp add: body_def)
  ultimately show ?thesis
    using assms(4,5) by blast
qed

lemma compile_step_shape:
  assumes st: "compile_step src i acc = Ok (i', acc')" and lt: "i < length src" and pos: "0 < i"
  shows "\<exists>w segs. list_all ws w \<and> list_all spaced_ok segs
           \<and> drop i src = body segs @ w @ drop i' src \<and> i' \<le> length src"
proof -
  have di: "drop i src = src ! i # drop (i + 1) src"
    using lt by (simp add: Cons_nth_drop_Suc)
  from skipSpaces_drop [of "i + 1" src] lt obtain w1 where
    w1: "list_all ws w1" "drop (i + 1) src = w1 @ drop (skipSpaces src (i + 1)) src"
    by auto
  consider (space) "ws (src ! i)"
    | (bracket) "\<not> ws (src ! i)" "src ! i = 91"
    | (dot) "\<not> ws (src ! i)" "src ! i = 46"
    using st by (auto simp: compile_step_def Let_def ws_def split: if_splits)
  then show ?thesis
  proof cases
    case space
    with st have i': "i' = skipSpaces src (i + 1)"
      by (auto simp: compile_step_def Let_def ws_def)
    have "list_all ws (src ! i # w1)"
      using space w1 by simp
    moreover have "list_all spaced_ok []" by simp
    moreover have "drop i src = body [] @ (src ! i # w1) @ drop i' src"
      using di w1 i' by (simp add: body_def)
    moreover have "i' \<le> length src"
      using i' by (simp add: skipSpaces_le_length)
    ultimately show ?thesis by blast
  next
    case bracket
    define s1 where "s1 = skipSpaces src (i + 1)"
    from st bracket have cb: "compile_bracket src i acc = Ok (i', acc')"
      by (auto simp: compile_step_def Let_def ws_def)
    then obtain a e1 where s1lt: "s1 \<noteq> length src"
      and bo: "bracket_operand src s1 = Ok (a, e1)"
      and e2: "skipSpaces src e1 \<noteq> length src" "src ! skipSpaces src e1 = 93"
        "i' = skipSpaces src e1 + 1"
      by (auto simp: compile_bracket_def Let_def s1_def split: if_splits outcome.splits)
    have s1b: "s1 < length src" "0 < s1"
      using s1lt skipSpaces_le_length [of src "i + 1"] skipSpaces_ge_min [of "i + 1" src] lt
      by (simp_all add: s1_def min_def split: if_splits)
    from bracket_operand_shape [OF bo s1b(2,1)] obtain seg t where
      t: "drop s1 src = t @ drop e1 src" "e1 \<le> length src" "segment_step seg = Some a"
        "\<forall>w1 w2. render_segment ([], w1, w2, []) seg = [91] @ w1 @ t @ w2 @ [93]"
      by blast
    from skipSpaces_drop [OF t(2)] obtain w2 where
      w2: "list_all ws w2" "drop e1 src = w2 @ drop (skipSpaces src e1) src"
      by auto
    have e2lt: "skipSpaces src e1 < length src"
      using e2(1) skipSpaces_le_length [of src e1] by simp
    then have d2: "drop (skipSpaces src e1) src = 93 # drop i' src"
      using e2 by (simp add: Cons_nth_drop_Suc [symmetric])
    have "drop i src = render_segment ([], w1, w2, []) seg @ [] @ drop i' src"
      using di bracket(2) w1(2) t(1) w2(2) d2 t(4) by (simp add: s1_def)
    moreover have "gaps_ok ([], w1, w2, [])"
      using w1 w2 by simp
    moreover have "i' \<le> length src"
      using e2lt e2(3) by simp
    ultimately show ?thesis
      using single_segment [of "([], w1, w2, [])" seg a i src "[]" i'] t(3) by simp
  next
    case dot
    define s1 where "s1 = skipSpaces src (i + 1)"
    from st dot have cd: "compile_dot src i acc = Ok (i', acc')"
      by (auto simp: compile_step_def Let_def ws_def IsSpace_def IsControl_def)
    then have s1lt: "s1 \<noteq> length src"
      by (auto simp: compile_dot_def Let_def s1_def split: if_splits)
    have s1b: "s1 < length src"
      using s1lt skipSpaces_le_length [of src "i + 1"] by (simp add: s1_def)
    have d1: "drop s1 src = src ! s1 # drop (s1 + 1) src"
      using s1b by (simp add: Cons_nth_drop_Suc)
    show ?thesis
    proof (cases "src ! s1 = 40")
      case True
      define s2 where "s2 = skipSpaces src (s1 + 1)"
      from cd s1lt True obtain nm e1 where
        pb: "parseBareName src s2 = Ok (nm, e1)"
        and e2: "skipSpaces src e1 \<noteq> length src" "src ! skipSpaces src e1 = 41"
          "i' = skipSpaces src e1 + 1"
        by (auto simp: compile_dot_def Let_def s1_def s2_def split: if_splits outcome.splits)
      from skipSpaces_drop [of "s1 + 1" src] s1b obtain w2 where
        w2: "list_all ws w2" "drop (s1 + 1) src = w2 @ drop s2 src"
        by (auto simp: s2_def)
      from parseBareName_drop [OF pb] skipSpaces_le_length [of src "s1 + 1"] obtain f where
        f: "f \<noteq> []" "list_all name_char f" "nm = go_string f"
          "drop s2 src = f @ drop e1 src" "e1 \<le> length src"
        by (auto simp: s2_def)
      from skipSpaces_drop [OF f(5)] obtain w3 where
        w3: "list_all ws w3" "drop e1 src = w3 @ drop (skipSpaces src e1) src"
        by auto
      have e2lt: "skipSpaces src e1 < length src"
        using e2(1) skipSpaces_le_length [of src e1] by simp
      then have d2: "drop (skipSpaces src e1) src = 41 # drop i' src"
        using e2 by (simp add: Cons_nth_drop_Suc [symmetric])
      have "drop i src = render_segment ([], w1, w2, w3) (SegFunction f) @ [] @ drop i' src"
        using di dot(2) w1(2) d1 True w2(2) f(4) w3(2) d2 by (simp add: s1_def)
      moreover have "gaps_ok ([], w1, w2, w3)"
        using w1 w2 w3 by simp
      moreover have "segment_step (SegFunction f) = Some (FunctionOperand nm)"
        using f by simp
      moreover have "i' \<le> length src"
        using e2lt e2(3) by simp
      ultimately show ?thesis
        using single_segment
          [of "([], w1, w2, w3)" "SegFunction f" "FunctionOperand nm" i src "[]" i']
        by simp
    next
      case False
      from cd s1lt False obtain nm e1 where
        pb: "parseBareName src s1 = Ok (nm, e1)"
        and i': "i' = skipSpaces src e1"
        by (auto simp: compile_dot_def Let_def s1_def split: if_splits outcome.splits)
      from parseBareName_drop [OF pb] s1b obtain n where
        n: "n \<noteq> []" "list_all name_char n" "nm = go_string n"
          "drop s1 src = n @ drop e1 src" "e1 \<le> length src"
        by auto
      from skipSpaces_drop [OF n(5)] obtain w where
        w: "list_all ws w" "drop e1 src = w @ drop i' src"
        by (auto simp: i')
      have "drop i src = render_segment ([], w1, [], []) (SegName n) @ w @ drop i' src"
        using di dot(2) w1(2) n(4) w(2) by (simp add: s1_def)
      moreover have "gaps_ok ([], w1, [], [])"
        using w1 by simp
      moreover have "segment_step (SegName n) = Some (NameIndexer nm)"
        using n by simp
      moreover have "i' \<le> length src"
        using i' by (simp add: skipSpaces_le_length)
      ultimately show ?thesis
        using single_segment
          [of "([], w1, [], [])" "SegName n" "NameIndexer nm" i src w i'] w(1)
        by simp
    qed
  qed
qed


lemma parseBareName_loop_ge:
  "s \<le> fst (parseBareName_loop src s buf)"
  by (induction src s buf rule: parseBareName_loop.induct)
     (subst parseBareName_loop.simps, auto simp: Let_def)

lemma bracket_operand_gt:
  assumes "bracket_operand src s = Ok (a, e)"
  shows "s < e"
proof (cases "(48 \<le> src ! s \<and> src ! s \<le> 57) \<or> src ! s = 45")
  case True
  with assms have "parseNumber src s = Ok e"
    by (auto simp: bracket_operand_def split: outcome.splits option.splits)
  then show ?thesis
    using parseNumber_loop_ge [of s src]
    by (auto simp: parseNumber_def Let_def split: if_splits)
next
  case False
  with assms obtain nm where "parseQuotedName src (src ! s) (s + 1) = Ok (nm, e)"
    by (auto simp: bracket_operand_def Let_def split: if_splits outcome.splits)
  from parseQuotedName_loop_end [OF this [unfolded parseQuotedName_def]] show ?thesis
    by simp
qed

lemma parseBareName_ge:
  assumes "parseBareName src s = Ok (n, e)"
  shows "s \<le> e"
  using assms parseBareName_loop_ge [of s src "[]"]
  by (auto simp: parseBareName_def split: prod.splits if_splits)

lemma compile_step_gt:
  assumes st: "compile_step src i acc = Ok (i', acc')" and lt: "i < length src"
  shows "i < i'"
proof -
  have s2: "i < skipSpaces src e" if "i < e" for e
    using skipSpaces_ge_min [of e src] lt that by (simp add: min_def split: if_splits)
  have s3: "i < skipSpaces src (Suc (skipSpaces src (Suc i)))"
    if "skipSpaces src (Suc i) \<noteq> length src"
    using s2 [of "Suc i"] skipSpaces_le_length [of src "Suc i"] that
      skipSpaces_ge_min [of "Suc (skipSpaces src (Suc i))" src] by simp
  from st show "i < i'"
    unfolding compile_step_def compile_bracket_def compile_dot_def Let_def
    using s2 [of "Suc i"] s3
    by (auto split: if_splits outcome.splits prod.splits
          dest!: bracket_operand_gt parseBareName_ge intro!: s2 less_SucI)
qed

lemma compileCore_loop_shape:
  "compileCore_loop src i acc = Ok r \<Longrightarrow> 0 < i \<Longrightarrow> i \<le> length src
     \<Longrightarrow> \<exists>segs wt. list_all spaced_ok segs \<and> list_all ws wt \<and> drop i src = body segs @ wt"
proof (induction src i acc rule: compileCore_loop.induct)
  case (1 src i acc)
  show ?case
  proof (cases "i < length src")
    case True
    with "1.prems"(1) obtain i' acc' where
      st: "compile_step src i acc = Ok (i', acc')"
      and r: "compileCore_loop src i' acc' = Ok r"
      by (subst (asm) compileCore_loop.simps) (auto split: outcome.splits)
    from compile_step_shape [OF st True "1.prems"(2)] obtain w segs1 where
      s1: "list_all ws w" "list_all spaced_ok segs1"
        "drop i src = body segs1 @ w @ drop i' src" "i' \<le> length src"
      by blast
    have "i < i'"
      using compile_step_gt [OF st True] .
    with "1.prems"(2) have pos': "0 < i'" by simp
    from "1.IH" [OF True st refl r pos' s1(4)] obtain segs2 wt2 where
      s2: "list_all spaced_ok segs2" "list_all ws wt2" "drop i' src = body segs2 @ wt2"
      by blast
    from absorb_ws [OF s1(1) s2(1,2)] obtain segs3 wt3 where
      s3: "list_all spaced_ok segs3" "list_all ws wt3" "w @ body segs2 @ wt2 = body segs3 @ wt3"
      by blast
    have "list_all spaced_ok (segs1 @ segs3)"
      using s1(2) s3(1) by simp
    moreover have "drop i src = body (segs1 @ segs3) @ wt3"
      using s1(3) s2(3) s3(3) by (simp add: body_append)
    ultimately show ?thesis
      using s3(2) by blast
  next
    case False
    with "1.prems"(3) have "drop i src = body [] @ []"
      by (simp add: body_def)
    moreover have "list_all spaced_ok []" "list_all ws []"
      by simp_all
    ultimately show ?thesis by blast
  qed
qed

lemma Compile_shape:
  assumes "Compile src = Ok p"
  shows "\<exists>segs wt. list_all spaced_ok segs \<and> list_all ws wt \<and> src = render_path segs wt"
proof -
  from assms obtain r where ne: "src \<noteq> []" and r0: "src ! 0 = 36"
    and l: "compileCore_loop src 1 [] = Ok r"
    by (auto simp: Compile_def compileCore_def split: if_splits outcome.splits)
  from ne have one: "1 \<le> length src"
    by (cases src) auto
  from compileCore_loop_shape [OF l _ one] obtain segs wt where
    s: "list_all spaced_ok segs" "list_all ws wt" "drop 1 src = body segs @ wt"
    by auto
  have "src = 36 # drop 1 src"
    using ne r0 by (cases src) auto
  with s(3) have "src = render_path segs wt"
    by (simp add: render_path_def body_def)
  with s(1,2) show ?thesis by blast
qed

section \<open>An escape that the scan of a quoted name arrives at\<close>

lemma parseQuotedName_upto_le:
  "parseQuotedName_upto src cc i buf j = Some b \<Longrightarrow> i \<le> j"
  by (subst (asm) parseQuotedName_upto.simps) (simp split: if_splits)

lemma parseQuotedName_upto_loop:
  "parseQuotedName_upto src cc i buf j = Some b
     \<Longrightarrow> parseQuotedName_loop src cc start i buf = parseQuotedName_loop src cc start j b"
proof (induction src cc i buf j rule: parseQuotedName_upto.induct)
  case (1 src cc i buf j)
  note unf = parseQuotedName_upto.simps [of src cc i buf j]
  show ?case
  proof (cases "i = j")
    case True
    with "1.prems" show ?thesis by (subst (asm) unf) simp
  next
    case ne: False
    with "1.prems" have lt: "i < length src \<and> i < j" and ncc: "src ! i \<noteq> cc"
      by (subst (asm) unf, simp add: Let_def split: if_splits)+
    show ?thesis
    proof (cases "src ! i = 92")
      case True
      with "1.prems" ne lt ncc obtain rs i' where
        esc: "parse_escape src i = Ok (rs, i')"
        and r: "parseQuotedName_upto src cc i' (buf @ rs) j = Some b"
        by (subst (asm) unf) (auto simp: Let_def split: outcome.splits)
      have "parseQuotedName_loop src cc start i' (buf @ rs)
          = parseQuotedName_loop src cc start j b"
        using "1.IH"(1) [OF ne lt refl ncc True esc refl r] .
      then show ?thesis
        using lt ncc True esc by (subst parseQuotedName_loop.simps) (simp add: Let_def)
    next
      case False
      with "1.prems" ne lt ncc have
        r: "parseQuotedName_upto src cc (i + 1) (buf @ [src ! i]) j = Some b"
        by (subst (asm) unf) (simp add: Let_def)
      have "parseQuotedName_loop src cc start (i + 1) (buf @ [src ! i])
          = parseQuotedName_loop src cc start j b"
        using "1.IH"(2) [OF ne lt refl ncc False r] .
      then show ?thesis
        using lt ncc False by (subst parseQuotedName_loop.simps) (simp add: Let_def)
    qed
  qed
qed

lemma parseQuotedName_upto_trans:
  "parseQuotedName_upto src cc i buf m = Some b
     \<Longrightarrow> parseQuotedName_upto src cc m b j = Some b'
     \<Longrightarrow> parseQuotedName_upto src cc i buf j = Some b'"
proof (induction src cc i buf m rule: parseQuotedName_upto.induct)
  case (1 src cc i buf m)
  note unf = parseQuotedName_upto.simps [of src cc i buf m]
  note unj = parseQuotedName_upto.simps [of src cc i buf j]
  have mj: "m \<le> j"
    using "1.prems"(2) by (rule parseQuotedName_upto_le)
  show ?case
  proof (cases "i = m")
    case True
    with "1.prems" show ?thesis by (subst (asm) unf) simp
  next
    case ne: False
    with "1.prems"(1) have lt: "i < length src \<and> i < m" and ncc: "src ! i \<noteq> cc"
      by (subst (asm) unf, simp add: Let_def split: if_splits)+
    from lt mj have ij: "i \<noteq> j" "i < j" by simp_all
    show ?thesis
    proof (cases "src ! i = 92")
      case True
      with "1.prems"(1) ne lt ncc obtain rs i' where
        esc: "parse_escape src i = Ok (rs, i')"
        and r: "parseQuotedName_upto src cc i' (buf @ rs) m = Some b"
        by (subst (asm) unf) (auto simp: Let_def split: outcome.splits)
      have "parseQuotedName_upto src cc i' (buf @ rs) j = Some b'"
        using "1.IH"(1) [OF ne lt refl ncc True esc refl r "1.prems"(2)] .
      then show ?thesis
        using lt ncc True esc ij by (subst unj) (simp add: Let_def)
    next
      case False
      with "1.prems"(1) ne lt ncc have
        r: "parseQuotedName_upto src cc (i + 1) (buf @ [src ! i]) m = Some b"
        by (subst (asm) unf) (simp add: Let_def)
      have "parseQuotedName_upto src cc (i + 1) (buf @ [src ! i]) j = Some b'"
        using "1.IH"(2) [OF ne lt refl ncc False r "1.prems"(2)] .
      then show ?thesis
        using lt ncc False ij by (subst unj) (simp add: Let_def)
    qed
  qed
qed

lemma parseQuotedName_upto_unknown:
  assumes "i + 1 < length src" and "src ! i = 92" and "cc = 34 \<or> cc = 39"
    and "\<not> table_introducer (src ! (i + 1))"
  shows "parseQuotedName_upto src cc i buf (i + 2) = Some (buf @ [src ! (i + 1)])"
proof -
  have cc: "cc \<noteq> 92"
    using assms(3) by auto
  have n: "src ! (i + 1) \<noteq> cc" "src ! (i + 1) \<noteq> 92"
    using assms(3,4) by (auto simp: table_introducer_def)
  have "parseQuotedName_upto src cc i buf (i + 2)
      = parseQuotedName_upto src cc (i + 1) buf (i + 2)"
    using parse_escape_unknown [OF assms(1,4)] assms(1,2) cc
    by (subst parseQuotedName_upto.simps) (simp add: Let_def)
  also have "\<dots> = parseQuotedName_upto src cc (i + 1 + 1) (buf @ [src ! (i + 1)]) (i + 2)"
    using n assms(1) by (subst parseQuotedName_upto.simps) (simp add: Let_def)
  also have "\<dots> = Some (buf @ [src ! (i + 1)])"
    by (subst parseQuotedName_upto.simps) simp
  finally show ?thesis .
qed

lemma Compile_quoted_failure:
  assumes segs: "list_all spaced_ok segs" and w: "list_all ws w0" "list_all ws w1"
    and cc: "cc = 34 \<or> cc = 39"
    and src: "src = render_path segs (w0 @ [91] @ w1 @ [cc] @ rest)"
    and q: "q = length (render_path segs (w0 @ [91] @ w1))"
    and f: "parseQuotedName src cc (q + 1) = Failure e"
  shows "Compile src = Failure (Compile_BadQuotedName q)"
proof -
  define P where "P = [36] @ body segs"
  have e: "src = P @ w0 @ [91] @ w1 @ [cc] @ rest"
    using src by (simp add: render_path_def body_def P_def)
  have qq: "q = length ((P @ w0) @ [91] @ w1)"
    using q by (simp add: render_path_def body_def P_def)
  have st: "stops name_char (w0 @ 91 # w1 @ [cc] @ rest)"
    by (rule stops_ws_append [OF w(1) _ ws_not_name_char])
       (simp add: name_char_def bare_stop_def)
  have "compileCore_loop src 1 [] = compileCore_loop src (length P)
      (map (\<lambda>gs. the (segment_step (snd gs))) segs)"
    using compile_prefix [OF segs st, of "[36]" "[]"]
    by (simp add: e P_def)
  also have "\<dots> = compileCore_loop src (length (P @ w0))
      (map (\<lambda>gs. the (segment_step (snd gs))) segs)"
    using skip_gap [of src P w0 91 "w1 @ [cc] @ rest"] w(1)
    by (simp add: e)
  also have "\<dots> = Failure (Compile_BadQuotedName q)"
  proof -
    have c0: "src ! length (P @ w0) = 91" "length (P @ w0) < length src"
      using nth_at [of src "P @ w0" 91 "w1 @ [cc] @ rest"] e by simp_all
    have ncc: "\<not> ws cc"
      using cc by (auto simp: ws_def IsSpace_def IsControl_def)
    have sk: "skipSpaces src (length (P @ w0) + 1) = q"
      using skipSpaces_at [of src "(P @ w0) @ [91]" w1 "[cc] @ rest"] e w(2) ncc
      by (simp add: qq)
    have c2: "src ! q = cc" "q < length src"
      using nth_at [of src "(P @ w0) @ [91] @ w1" cc rest] e
      by (simp_all add: qq)
    show ?thesis
      using quoted_failure_propagates [OF c0(2,1) sk [symmetric] c2(2)] cc f c2(1)
      by auto
  qed
  finally show ?thesis
    using e by (simp add: Compile_def compileCore_def P_def)
qed

lemma Compile_quoted_ok:
  assumes segs: "list_all spaced_ok segs" and w: "list_all ws w0" "list_all ws w1"
    and cc: "cc = 34 \<or> cc = 39"
    and src: "src = render_path segs (w0 @ [91] @ w1 @ [cc] @ rest)"
    and q: "q = length (render_path segs (w0 @ [91] @ w1))"
    and pq: "parseQuotedName src cc (q + 1) = Ok (nm, e)"
    and tl: "drop e src = w2 @ [93] @ body segs2 @ wt"
    and w2: "list_all ws w2" and segs2: "list_all spaced_ok segs2" and wt: "list_all ws wt"
  shows "Compile src = Ok \<lparr>asts = map (\<lambda>gs. the (segment_step (snd gs))) segs
      @ [NameIndexer nm] @ map (\<lambda>gs. the (segment_step (snd gs))) segs2\<rparr>"
proof -
  from parseQuotedName_drop [OF pq] obtain raw where
    d: "drop (q + 1) src = raw @ cc # drop e src"
    and r: "parseQuotedName (raw @ [cc]) cc 0 = Ok (nm, length raw + 1)"
    by blast
  define pre where "pre = render_path segs (w0 @ [91] @ w1) @ [cc]"
  have s1: "src = pre @ rest"
    using src by (simp add: render_path_def pre_def)
  have lp: "length pre = q + 1"
    using q by (simp add: pre_def)
  have "src = take (q + 1) src @ drop (q + 1) src"
    by simp
  also have "take (q + 1) src = pre"
    using s1 lp by simp
  finally have s2: "src = pre @ raw @ cc # w2 @ [93] @ body segs2 @ wt"
    using d tl by simp
  define seg where "seg = ((w0, w1, w2, [] :: rune list), SegQuoted cc raw)"
  have ok: "spaced_ok seg"
    using w w2 cc r by (auto simp: spaced_ok_def seg_def)
  have st: "segment_step (snd seg) = Some (NameIndexer nm)"
    using cc r by (auto simp: seg_def)
  have all: "list_all spaced_ok (segs @ [seg] @ segs2)"
    using segs segs2 ok by simp
  have "src = render_path (segs @ [seg] @ segs2) wt"
    unfolding s2 by (simp add: render_path_def pre_def seg_def body_def)
  then show ?thesis
    using Compile_render_path [OF all wt] st by simp
qed

text \<open>
  The scan does not arrive at a backslash that an escape before it has taken: in
  \<open>$["\\x1"]\<close> the first backslash escapes the second, and the name is \<open>\x1\<close>.
\<close>

lemma escaped_backslash_is_content:
  "parseQuotedName_upto (runes ''$['' @ dq ([92] @ bs ''x1'') @ runes '']'') 34 3 [] 4 = None
   \<and> Compile (runes ''$['' @ dq ([92] @ bs ''x1'') @ runes '']'')
       = Ok \<lparr>asts = [NameIndexer (bs ''x1'')]\<rparr>"
  by (simp add: parseQuotedName_upto.simps compile_eval)

section \<open>Claims\<close>

text \<open>
  C1, as it is stated, fails for an introducer outside the table: \<open>$["\z"]\<close>
  compiles, to the name indexer \<open>z\<close>.
\<close>

theorem Compile_unknown_escape_compiles:
  "Compile (runes ''$['' @ dq (bs ''z'') @ runes '']'')
     = Ok \<lparr>asts = [NameIndexer (runes ''z'')]\<rparr>"
  by (simp add: compile_eval)

text \<open>
  C1, amended.  The path is the root marker, well-formed segments and then a bracket
  whose operand opens with the quote \<open>cc\<close> at index \<open>q\<close>; the scan of the quoted
  name, started after that quote, arrives at a backslash at index \<open>i\<close>, with \<open>buf\<close>
  decoded so far, and the backslash is not the last rune of the path.  When the rune
  after the backslash is not an introducer of the table, the scan goes on after that
  rune, with the backslash dropped and the rune appended to the name as ordinary
  content; and when the scan then arrives at the closing quote and the rest of the
  path is well formed, the path compiles, the bracket giving the name indexer of the
  decoded name.  When the escape is a malformed or over-long hex escape, \<open>Compile\<close>
  fails with the bad-quoted-name error of that bracket.
\<close>

theorem escape_outside_table:
  assumes segs: "list_all spaced_ok segs" and w: "list_all ws w0" "list_all ws w1"
    and cc: "cc = 34 \<or> cc = 39"
    and src: "src = render_path segs (w0 @ [91] @ w1 @ [cc] @ rest)"
    and q: "q = length (render_path segs (w0 @ [91] @ w1))"
    and reach: "parseQuotedName_upto src cc (q + 1) [] i = Some buf"
    and esc: "i + 1 < length src" "src ! i = 92"
  shows "(\<not> table_introducer (src ! (i + 1)) \<longrightarrow>
            parseQuotedName_upto src cc (q + 1) [] (i + 2) = Some (buf @ [src ! (i + 1)]))
         \<and> (\<not> table_introducer (src ! (i + 1))
            \<and> parseQuotedName_upto src cc (i + 2) (buf @ [src ! (i + 1)]) j = Some nm
            \<and> j < length src \<and> src ! j = cc
            \<and> drop (j + 1) src = w2 @ [93] @ body segs2 @ wt
            \<and> list_all ws w2 \<and> list_all spaced_ok segs2 \<and> list_all ws wt \<longrightarrow>
            Compile src = Ok \<lparr>asts = map (\<lambda>gs. the (segment_step (snd gs))) segs
              @ [NameIndexer (go_string nm)] @ map (\<lambda>gs. the (segment_step (snd gs))) segs2\<rparr>)
         \<and> (bad_hex_escape src i \<longrightarrow> Compile src = Failure (Compile_BadQuotedName q))"
proof (intro conjI impI)
  assume nt: "\<not> table_introducer (src ! (i + 1))"
  show "parseQuotedName_upto src cc (q + 1) [] (i + 2) = Some (buf @ [src ! (i + 1)])"
    using parseQuotedName_upto_trans [OF reach parseQuotedName_upto_unknown [OF esc cc nt]] .
next
  assume a: "\<not> table_introducer (src ! (i + 1))
      \<and> parseQuotedName_upto src cc (i + 2) (buf @ [src ! (i + 1)]) j = Some nm
      \<and> j < length src \<and> src ! j = cc
      \<and> drop (j + 1) src = w2 @ [93] @ body segs2 @ wt
      \<and> list_all ws w2 \<and> list_all spaced_ok segs2 \<and> list_all ws wt"
  then have nt: "\<not> table_introducer (src ! (i + 1))" by simp
  have r2: "parseQuotedName_upto src cc (q + 1) [] j = Some nm"
    using parseQuotedName_upto_trans
      [OF parseQuotedName_upto_trans [OF reach parseQuotedName_upto_unknown [OF esc cc nt]]] a
    by simp
  have "parseQuotedName src cc (q + 1) = parseQuotedName_loop src cc (q + 1) j nm"
    unfolding parseQuotedName_def by (rule parseQuotedName_upto_loop [OF r2])
  also have "\<dots> = Ok (go_string nm, j + 1)"
    using a by (subst parseQuotedName_loop.simps) (simp add: Let_def)
  finally have pq: "parseQuotedName src cc (q + 1) = Ok (go_string nm, j + 1)" .
  show "Compile src = Ok \<lparr>asts = map (\<lambda>gs. the (segment_step (snd gs))) segs
      @ [NameIndexer (go_string nm)] @ map (\<lambda>gs. the (segment_step (snd gs))) segs2\<rparr>"
  proof (rule Compile_quoted_ok [OF segs w cc src q pq])
    show "drop (j + 1) src = w2 @ [93] @ body segs2 @ wt" using a by simp
    show "list_all ws w2" using a by simp
    show "list_all spaced_ok segs2" using a by simp
    show "list_all ws wt" using a by simp
  qed
next
  have c92: "cc \<noteq> 92"
    using cc by auto
  assume "bad_hex_escape src i"
  from parse_escape_bad_hex [OF esc(1) this] obtain e where
    "parse_escape src i = Failure e" ..
  with esc c92 have "parseQuotedName_loop src cc (q + 1) i buf = Failure e"
    by (subst parseQuotedName_loop.simps) (simp add: Let_def)
  then have "parseQuotedName src cc (q + 1) = Failure e"
    unfolding parseQuotedName_def using parseQuotedName_upto_loop [OF reach, of "q + 1"] by simp
  then show "Compile src = Failure (Compile_BadQuotedName q)"
    by (rule Compile_quoted_failure [OF segs w cc src q])
qed


theorem escape_outside_table_witness:
  "parseQuotedName_upto (runes ''$.a [ '' @ [39] @ runes ''x'' @ bs ''zy'' @ [39] @ runes '' ].b'')
       39 7 [] 10 = Some (runes ''xz'')
   \<and> Compile (runes ''$.a [ '' @ [39] @ runes ''x'' @ bs ''zy'' @ [39] @ runes '' ].b'')
       = Ok \<lparr>asts = [NameIndexer (runes ''a''), NameIndexer (runes ''xzy''),
                       NameIndexer (runes ''b'')]\<rparr>
   \<and> Compile (runes ''$.a['' @ dq (runes ''x'' @ bs ''u{1234567}'') @ runes '']'')
       = Failure (Compile_BadQuotedName 4)
   \<and> Compile (runes ''$['' @ dq (bs ''xg1'') @ runes '']'')
       = Failure (Compile_BadQuotedName 2)
   \<and> Compile (runes ''$['' @ dq (bs ''u061'') @ runes '']'')
       = Failure (Compile_BadQuotedName 2)"
proof -
  define s1 where "s1 = runes ''$.a [ '' @ [39] @ runes ''x'' @ bs ''zy'' @ [39] @ runes '' ].b''"
  define s2 where "s2 = runes ''$.a['' @ dq (runes ''x'' @ bs ''u{1234567}'') @ runes '']''"
  define s3 where "s3 = runes ''$['' @ dq (bs ''xg1'') @ runes '']''"
  define s4 where "s4 = runes ''$['' @ dq (bs ''u061'') @ runes '']''"
  define segs :: "(gaps \<times> segment) list" where "segs = [(([], [], [], []), SegName (runes ''a''))]"
  define segs2 :: "(gaps \<times> segment) list" where "segs2 = [(([], [], [], []), SegName (runes ''b''))]"
  have ok: "list_all spaced_ok segs" "list_all spaced_ok segs2"
    by (simp_all add: segs_def segs2_def spaced_ok_def name_char_def scan_eval)
  have nil: "list_all spaced_ok []"
    by simp
  have sp: "list_all ws [32]" "list_all ws []"
    by (simp_all add: ws_def IsSpace_def)
  have c: "(39 :: rune) = 34 \<or> (39 :: rune) = 39" "(34 :: rune) = 34 \<or> (34 :: rune) = 39"
    by simp_all
  have r1: "s1 = render_path segs
      ([32] @ [91] @ [32] @ [39] @ runes ''x'' @ bs ''zy'' @ [39] @ runes '' ].b'')"
    by (simp add: s1_def render_path_def segs_def runes_def bs_def)
  have q1: "6 = length (render_path segs ([32] @ [91] @ [32]))"
    by (simp add: render_path_def segs_def runes_def)
  have reach1: "parseQuotedName_upto s1 39 (6 + 1) [] 8 = Some (runes ''x'')"
    by (simp add: s1_def parseQuotedName_upto.simps scan_eval)
  have e1: "8 + 1 < length s1" "s1 ! 8 = 92"
    by (simp_all add: s1_def runes_def bs_def)
  have nt: "\<not> table_introducer (s1 ! (8 + 1))" and z: "s1 ! (8 + 1) = 122"
    by (simp_all add: s1_def table_introducer_def runes_def bs_def)
  have rest1: "parseQuotedName_upto s1 39 (8 + 2) (runes ''x'' @ [s1 ! (8 + 1)]) 11
      = Some (runes ''xzy'')"
    by (simp add: s1_def parseQuotedName_upto.simps scan_eval)
  have cl: "11 < length s1" "s1 ! 11 = 39"
    by (simp_all add: s1_def runes_def bs_def)
  have tl: "drop (11 + 1) s1 = [32] @ [93] @ body segs2 @ []"
    by (simp add: s1_def body_def segs2_def runes_def bs_def)
  have r2: "s2 = render_path segs
      ([] @ [91] @ [] @ [34] @ runes ''x'' @ bs ''u{1234567}'' @ [34] @ runes '']'')"
    by (simp add: s2_def render_path_def segs_def runes_def bs_def dq_def)
  have q2: "4 = length (render_path segs ([] @ [91] @ []))"
    by (simp add: render_path_def segs_def runes_def)
  have reach2: "parseQuotedName_upto s2 34 (4 + 1) [] 6 = Some (runes ''x'')"
    by (simp add: s2_def parseQuotedName_upto.simps scan_eval)
  have e2: "6 + 1 < length s2" "s2 ! 6 = 92"
    by (simp_all add: s2_def runes_def bs_def dq_def)
  have bad2: "bad_hex_escape s2 6"
    by (simp add: s2_def bad_hex_escape_def hex_run_def is_hex_def runes_def bs_def dq_def)
  have r3: "s3 = render_path [] ([] @ [91] @ [] @ [34] @ bs ''xg1'' @ [34] @ runes '']'')"
    by (simp add: s3_def render_path_def runes_def bs_def dq_def)
  have r4: "s4 = render_path [] ([] @ [91] @ [] @ [34] @ bs ''u061'' @ [34] @ runes '']'')"
    by (simp add: s4_def render_path_def runes_def bs_def dq_def)
  have q3: "2 = length (render_path [] ([] @ [91] @ []))"
    by (simp add: render_path_def)
  have reach3: "parseQuotedName_upto s3 34 (2 + 1) [] 3 = Some []"
    and reach4: "parseQuotedName_upto s4 34 (2 + 1) [] 3 = Some []"
    by (simp_all add: parseQuotedName_upto.simps)
  have e3: "3 + 1 < length s3" "s3 ! 3 = 92"
    by (simp_all add: s3_def runes_def bs_def dq_def)
  have e4: "3 + 1 < length s4" "s4 ! 3 = 92"
    by (simp_all add: s4_def runes_def bs_def dq_def)
  have bad3: "bad_hex_escape s3 3"
    by (simp add: s3_def bad_hex_escape_def hex_run_def is_hex_def runes_def bs_def dq_def)
  have bad4: "bad_hex_escape s4 3"
    by (simp add: s4_def bad_hex_escape_def hex_run_def is_hex_def runes_def bs_def dq_def)
  note t1 = escape_outside_table [OF ok(1) sp(1) sp(1) c(1) r1 q1 reach1 e1,
      where j = 11 and nm = "runes ''xzy''" and ?w2.0 = "[32]" and ?segs2.0 = segs2
        and wt = "[]"]
  note t2 = escape_outside_table [OF ok(1) sp(2) sp(2) c(2) r2 q2 reach2 e2]
  note t3 = escape_outside_table [OF nil sp(2) sp(2) c(2) r3 q3 reach3 e3]
  note t4 = escape_outside_table [OF nil sp(2) sp(2) c(2) r4 q3 reach4 e4]
  have a: "parseQuotedName_upto s1 39 7 [] 10 = Some (runes ''xz'')"
    using t1 nt z by (simp add: runes_def)
  have b: "Compile s1 = Ok \<lparr>asts = [NameIndexer (runes ''a''), NameIndexer (runes ''xzy''),
                       NameIndexer (runes ''b'')]\<rparr>"
    using t1 nt rest1 cl tl ok(2) sp
    by (simp add: segs_def segs2_def name_char_def scan_eval)
  have d: "Compile s2 = Failure (Compile_BadQuotedName 4)"
    using t2 bad2 by simp
  have e: "Compile s3 = Failure (Compile_BadQuotedName 2)"
    using t3 bad3 by simp
  have f: "Compile s4 = Failure (Compile_BadQuotedName 2)"
    using t4 bad4 by simp
  show ?thesis
    using a b d e f unfolding s1_def s2_def s3_def s4_def by blast
qed

text \<open>
  C2.  The claim: a bracket indexer \<open>[-N]\<close> anywhere after the root marker compiles
  to a numeric indexer with a negative index.  The code: \<open>parseNumber\<close> accepts the
  minus sign only at index 0 of the whole path, where the root marker stands.  So
  after the root marker and any well-formed segments, a bracket whose first
  significant rune is a minus sign is refused as a bad number expression, whatever
  follows the sign.
\<close>

theorem bracket_minus_never_compiles:
  assumes "list_all spaced_ok segs" and "list_all ws w0" and "list_all ws w1"
  shows "Compile (render_path segs (w0 @ [91] @ w1 @ [45] @ rest))
      = Failure (Compile_BadNumber (length (render_path segs (w0 @ [91] @ w1))))"
proof -
  define src where "src = [36] @ body segs @ (w0 @ [91] @ w1 @ [45] @ rest)"
  define P where "P = [36] @ body segs"
  have st: "stops name_char (w0 @ 91 # w1 @ [45] @ rest)"
    by (rule stops_ws_append [OF assms(2) _ ws_not_name_char])
       (simp add: name_char_def bare_stop_def)
  have "compileCore_loop src 1 [] = compileCore_loop src (length P)
      (map (\<lambda>gs. the (segment_step (snd gs))) segs)"
    using compile_prefix [OF assms(1) st, of "[36]" "[]"]
    by (simp add: src_def P_def)
  also have "\<dots> = compileCore_loop src (length (P @ w0))
      (map (\<lambda>gs. the (segment_step (snd gs))) segs)"
    using skip_gap [of src P w0 91 "w1 @ [45] @ rest"] assms(2)
    by (simp add: src_def P_def)
  also have "\<dots> = Failure (Compile_BadNumber (length ((P @ w0) @ [91] @ w1)))"
  proof -
    have e: "src = (P @ w0) @ [91] @ w1 @ [45] @ rest"
      by (simp add: src_def P_def)
    have "length (P @ w0) < length src"
      by (simp add: e)
    then show ?thesis
      using compile_minus_core [OF e assms(3)]
      by (subst compileCore_loop.simps) simp
  qed
  finally show ?thesis
    by (simp add: Compile_def compileCore_def render_path_def body_def src_def P_def)
qed

theorem bracket_minus_never_compiles_witness:
  "Compile (runes ''$[-1]'') = Failure (Compile_BadNumber 2)
   \<and> Compile (runes ''$.foo[-1].bar'') = Failure (Compile_BadNumber 6)"
proof -
  have ok: "list_all spaced_ok [(([], [], [], []), SegName (runes ''foo''))]"
    by (simp add: spaced_ok_def name_char_def scan_eval)
  show ?thesis
    using bracket_minus_never_compiles [of "[]" "[]" "[]" "runes ''1]''"]
      bracket_minus_never_compiles [OF ok, of "[]" "[]" "runes ''1].bar''"]
    by (simp add: render_path_def runes_def)
qed

text \<open>
  C3.  The claim: compiling the empty path returns an error value and does not crash.
  The code: \<open>compileCore\<close> reads \<open>src[0]\<close> of the empty rune slice, so the call
  panics and returns nothing.
\<close>

theorem Compile_empty_panics:
  "Compile [] = Panic"
  by (simp add: Compile_def compileCore_def)



text \<open>
  C5.  The quoted names \<open>"abc"\<close>, \<open>"\x61\x62\x63"\<close>, \<open>"\u0061\u0062\u0063"\<close> and
  \<open>"\u{61}\u{062}\u{0063}"\<close>, each in brackets after the root marker, compile to
  the same single step, the name indexer \<open>abc\<close>.
\<close>

theorem Compile_escape_equivalence:
  "Compile (runes ''$['' @ dq (runes ''abc'') @ runes '']'')
     = Ok \<lparr>asts = [NameIndexer (runes ''abc'')]\<rparr>
   \<and> Compile (runes ''$['' @ dq (bs ''x61'' @ bs ''x62'' @ bs ''x63'') @ runes '']'')
     = Ok \<lparr>asts = [NameIndexer (runes ''abc'')]\<rparr>
   \<and> Compile (runes ''$['' @ dq (bs ''u0061'' @ bs ''u0062'' @ bs ''u0063'') @ runes '']'')
     = Ok \<lparr>asts = [NameIndexer (runes ''abc'')]\<rparr>
   \<and> Compile (runes ''$['' @ dq (bs ''u{61}'' @ bs ''u{062}'' @ bs ''u{0063}'') @ runes '']'')
     = Ok \<lparr>asts = [NameIndexer (runes ''abc'')]\<rparr>"
  by (simp add: compile_eval)

text \<open>
  C6.  The path \<open>$\<close> compiles to the path with no step, and a path with no step,
  queried against any document that has been read (its type tag is not
  \<open>Type_Invalid\<close>), returns the root value unchanged, whatever that value is.
\<close>

theorem Query_no_steps_returns_root:
  assumes "asts p = []" and "ptyp pjson \<noteq> Type_Invalid"
  shows "Compile (runes ''$'') = Ok \<lparr>asts = []\<rparr> \<and> Query p pjson = Ok (pvalue pjson)"
  using assms by (simp add: Query_def compile_eval)

theorem Query_no_steps_returns_root_witness:
  "Query \<lparr>asts = []\<rparr> \<lparr>ptyp = Type_Null, pvalue = (VNil :: real jvalue)\<rparr> = Ok VNil
   \<and> Query \<lparr>asts = []\<rparr> \<lparr>ptyp = Type_String, pvalue = (VString (runes ''a'') :: real jvalue)\<rparr>
       = Ok (VString (runes ''a''))
   \<and> Query \<lparr>asts = []\<rparr> \<lparr>ptyp = Type_Number, pvalue = VFloat64 (7 :: real)\<rparr>
       = Ok (VFloat64 7)"
  using
    Query_no_steps_returns_root
      [of "\<lparr>asts = []\<rparr>" "\<lparr>ptyp = Type_Null, pvalue = (VNil :: real jvalue)\<rparr>"]
    Query_no_steps_returns_root
      [of "\<lparr>asts = []\<rparr>" "\<lparr>ptyp = Type_String, pvalue = (VString (runes ''a'') :: real jvalue)\<rparr>"]
    Query_no_steps_returns_root
      [of "\<lparr>asts = []\<rparr>" "\<lparr>ptyp = Type_Number, pvalue = VFloat64 (7 :: real)\<rparr>"]
  by simp

text \<open>
  C7.  For a path that \<open>Compile\<close> has returned and any document, the two accessors
  return a value and never an error or a panic: \<open>QueryAsStringOrZero\<close> the result of
  \<open>Query\<close> when that is a string and the empty string otherwise,
  \<open>QueryAsNumberOrZero\<close> the result when that is a \<open>float64\<close> and 0 otherwise, also
  when \<open>Query\<close> fails.
\<close>

theorem accessors_never_fail:
  assumes "Compile path = Ok p"
  shows "QueryAsStringOrZero p pjson
           = Ok (case Query p pjson of Ok (VString ret) \<Rightarrow> ret | _ \<Rightarrow> [])
         \<and> QueryAsNumberOrZero p pjson
           = Ok (case Query p pjson of Ok (VFloat64 ret) \<Rightarrow> ret | _ \<Rightarrow> 0)"
  using Query_no_panic [OF assms, of pjson]
  by (auto simp: QueryAsStringOrZero_def QueryAsNumberOrZero_def
        split: outcome.splits jvalue.splits)

text \<open>
  The failing query \<open>$.c\<close> against \<open>{"a":{"b":1}}\<close>: the accessors yield \<open>0\<close> and
  the empty string.
\<close>

theorem accessors_never_fail_witness:
  "Compile (runes ''$.c'') = Ok \<lparr>asts = [NameIndexer (runes ''c'')]\<rparr>
   \<and> Query \<lparr>asts = [NameIndexer (runes ''c'')]\<rparr>
       \<lparr>ptyp = Type_Object,
        pvalue = VMap [runes ''a'' \<mapsto> VMap [runes ''b'' \<mapsto> VFloat64 (1 :: real)]]\<rparr>
     = Failure (Query_PropertyDoesNotExist 0)
   \<and> QueryAsNumberOrZero \<lparr>asts = [NameIndexer (runes ''c'')]\<rparr>
       \<lparr>ptyp = Type_Object,
        pvalue = VMap [runes ''a'' \<mapsto> VMap [runes ''b'' \<mapsto> VFloat64 (1 :: real)]]\<rparr>
     = Ok 0
   \<and> QueryAsStringOrZero \<lparr>asts = [NameIndexer (runes ''c'')]\<rparr>
       \<lparr>ptyp = Type_Object,
        pvalue = VMap [runes ''a'' \<mapsto> VMap [runes ''b'' \<mapsto> VFloat64 (1 :: real)]]\<rparr>
     = Ok []"
proof -
  have c: "Compile (runes ''$.c'') = Ok \<lparr>asts = [NameIndexer (runes ''c'')]\<rparr>"
    by (simp add: compile_eval)
  have q: "Query \<lparr>asts = [NameIndexer (runes ''c'')]\<rparr>
       \<lparr>ptyp = Type_Object,
        pvalue = VMap [runes ''a'' \<mapsto> VMap [runes ''b'' \<mapsto> VFloat64 (1 :: real)]]\<rparr>
     = Failure (Query_PropertyDoesNotExist 0)"
    by (simp add: query_eval)
  show ?thesis
    using c q
      accessors_never_fail [OF c, of
        "\<lparr>ptyp = Type_Object,
          pvalue = VMap [runes ''a'' \<mapsto> VMap [runes ''b'' \<mapsto> VFloat64 (1 :: real)]]\<rparr>"]
    by simp
qed

text \<open>
  C8.  When the steps before it lead to an empty array, the operands \<open>first\<close> and
  \<open>last\<close> each fail with the index-out-of-range error of their level, and the
  operand \<open>length\<close> succeeds with the integer 0.
\<close>

theorem Query_functions_on_empty_array:
  assumes "Query \<lparr>asts = pre\<rparr> pjson = Ok (VSlice [])"
  shows "Query \<lparr>asts = pre @ [FunctionOperand (runes ''first'')]\<rparr> pjson
           = Failure (Query_IndexOutOfRange (length pre))
         \<and> Query \<lparr>asts = pre @ [FunctionOperand (runes ''last'')]\<rparr> pjson
           = Failure (Query_IndexOutOfRange (length pre))
         \<and> Query \<lparr>asts = pre @ [FunctionOperand (runes ''length'')]\<rparr> pjson
           = Ok (VInt 0)"
  by (simp add: Query_snoc [OF assms] query_step_def FunctionOperand_def runes_def)

theorem Query_functions_on_empty_array_witness:
  "Query \<lparr>asts = [NameIndexer (runes ''a''), FunctionOperand (runes ''first'')]\<rparr>
     \<lparr>ptyp = Type_Object, pvalue = VMap [runes ''a'' \<mapsto> (VSlice [] :: real jvalue)]\<rparr>
     = Failure (Query_IndexOutOfRange 1)
   \<and> Query \<lparr>asts = [NameIndexer (runes ''a''), FunctionOperand (runes ''last'')]\<rparr>
     \<lparr>ptyp = Type_Object, pvalue = VMap [runes ''a'' \<mapsto> (VSlice [] :: real jvalue)]\<rparr>
     = Failure (Query_IndexOutOfRange 1)
   \<and> Query \<lparr>asts = [NameIndexer (runes ''a''), FunctionOperand (runes ''length'')]\<rparr>
     \<lparr>ptyp = Type_Object, pvalue = VMap [runes ''a'' \<mapsto> (VSlice [] :: real jvalue)]\<rparr>
     = Ok (VInt 0)"
proof -
  have h: "Query \<lparr>asts = [NameIndexer (runes ''a'')]\<rparr>
      \<lparr>ptyp = Type_Object, pvalue = VMap [runes ''a'' \<mapsto> (VSlice [] :: real jvalue)]\<rparr>
      = Ok (VSlice [])"
    by (simp add: query_eval)
  show ?thesis
    using Query_functions_on_empty_array [OF h] by simp
qed

text \<open>
  C9, as it is stated, fails for whitespace before the root marker: the path has to
  start with \<open>$\<close>.
\<close>

theorem Compile_leading_space_fails:
  "Compile (runes ''$.test[1].abc'')
     = Ok \<lparr>asts = [NameIndexer (runes ''test''), NumberIndexer 1, NameIndexer (runes ''abc'')]\<rparr>
   \<and> Compile (runes '' $.test[1].abc'') = Failure Compile_BadRoot"
  by (simp add: compile_eval)

text \<open>
  C9, amended.  For every path made of the root marker and well-formed segments,
  runs of whitespace or control runes in the gaps after the root marker (before and
  after \<open>.\<close>, \<open>[\<close>, \<open>]\<close>, \<open>(\<close>, \<open>)\<close> and at the end of the path) do not change
  the result of the compilation: it is the result for the same segments written with
  no gap, the list of the selectors the segments denote.  Every path that compiles
  is such a path (\<open>Compile_shape\<close>).
\<close>

theorem Compile_whitespace_insensitive:
  assumes "list_all spaced_ok segs" and "list_all ws wt"
  shows "Compile (render_path segs wt) = Compile (plain_path (map snd segs))
         \<and> Compile (render_path segs wt)
           = Ok \<lparr>asts = map (\<lambda>gs. the (segment_step (snd gs))) segs\<rparr>"
proof -
  have "list_all spaced_ok (map (\<lambda>s. (([], [], [], []), s)) (map snd segs))"
    using assms(1) by (induction segs) (simp_all add: spaced_ok_def)
  from Compile_render_path [OF this, of "[]"] Compile_render_path [OF assms]
  show ?thesis
    by (simp add: plain_path_def comp_def)
qed

theorem Compile_whitespace_insensitive_witness:
  "Compile (runes ''$ . test [ 1 ] . abc '') = Compile (runes ''$.test[1].abc'')
   \<and> Compile (runes ''$ . test [ 1 ] . abc '')
     = Ok \<lparr>asts = [NameIndexer (runes ''test''), NumberIndexer 1, NameIndexer (runes ''abc'')]\<rparr>
   \<and> Compile (runes ''$ [ 'test' ] . (first) [ '' @ dq (runes ''abc'') @ runes '' ] '')
     = Compile (runes ''$['test'].(first)['' @ dq (runes ''abc'') @ runes '']'')
   \<and> Compile (runes ''$ [ 'test' ] . (first) [ '' @ dq (runes ''abc'') @ runes '' ] '')
     = Ok \<lparr>asts = [NameIndexer (runes ''test''), FunctionOperand (runes ''first''),
                   NameIndexer (runes ''abc'')]\<rparr>"
proof -
  define sp :: "rune list" where "sp = [32]"
  define segs1 :: "(gaps \<times> segment) list" where "segs1 =
    [((sp, sp, [], []), SegName (runes ''test'')),
     ((sp, sp, sp, []), SegNumber (runes ''1'')),
     ((sp, sp, [], []), SegName (runes ''abc''))]"
  define segs2 :: "(gaps \<times> segment) list" where "segs2 =
    [((sp, sp, sp, []), SegQuoted 39 (runes ''test'')),
     ((sp, sp, [], []), SegFunction (runes ''first'')),
     ((sp, sp, sp, []), SegQuoted 34 (runes ''abc''))]"
  have ok1: "list_all spaced_ok segs1"
    by (simp add: segs1_def sp_def spaced_ok_def ws_def name_char_def is_digit_def scan_eval)
  have ok2: "list_all spaced_ok segs2"
    by (simp add: segs2_def sp_def spaced_ok_def ws_def name_char_def is_digit_def scan_eval)
  have wt: "list_all ws sp"
    by (simp add: sp_def ws_def IsSpace_def)
  have r1: "render_path segs1 sp = runes ''$ . test [ 1 ] . abc ''"
    and p1: "plain_path (map snd segs1) = runes ''$.test[1].abc''"
    by (simp_all add: render_path_def plain_path_def segs1_def sp_def runes_def)
  have r2: "render_path segs2 sp
      = runes ''$ [ 'test' ] . (first) [ '' @ dq (runes ''abc'') @ runes '' ] ''"
    and p2: "plain_path (map snd segs2)
      = runes ''$['test'].(first)['' @ dq (runes ''abc'') @ runes '']''"
    by (simp_all add: render_path_def plain_path_def segs2_def sp_def runes_def dq_def)
  have s1: "map (\<lambda>gs. the (segment_step (snd gs))) segs1
      = [NameIndexer (runes ''test''), NumberIndexer 1, NameIndexer (runes ''abc'')]"
    by (simp add: segs1_def name_char_def is_digit_def scan_eval)
  have s2: "map (\<lambda>gs. the (segment_step (snd gs))) segs2
      = [NameIndexer (runes ''test''), FunctionOperand (runes ''first''),
         NameIndexer (runes ''abc'')]"
    by (simp add: segs2_def name_char_def is_digit_def scan_eval)
  show ?thesis
    using Compile_whitespace_insensitive [OF ok1 wt]
      Compile_whitespace_insensitive [OF ok2 wt]
    unfolding r1 p1 r2 p2 s1 s2 by blast
qed

text \<open>
  C10.  When the steps before it lead to an array, the operand \<open>length\<close> succeeds
  with the element count as a Go \<open>int\<close>, which is not a \<open>float64\<close>; so
  \<open>QueryAsNumberOrZero\<close> on that path returns 0.
\<close>

theorem QueryAsNumberOrZero_length_is_zero:
  assumes "Query \<lparr>asts = pre\<rparr> pjson = Ok (VSlice z)"
  shows "Query \<lparr>asts = pre @ [FunctionOperand (runes ''length'')]\<rparr> pjson
           = Ok (VInt (of_nat (length z)))
         \<and> QueryAsNumberOrZero \<lparr>asts = pre @ [FunctionOperand (runes ''length'')]\<rparr> pjson
           = Ok 0"
  by (simp add: QueryAsNumberOrZero_def Query_snoc [OF assms] query_step_def
        FunctionOperand_def runes_def)

theorem QueryAsNumberOrZero_length_is_zero_witness:
  "Query \<lparr>asts = [NameIndexer (runes ''test''), FunctionOperand (runes ''length'')]\<rparr>
     \<lparr>ptyp = Type_Object,
      pvalue = VMap [runes ''test'' \<mapsto> VSlice [VFloat64 (1 :: real), VFloat64 10]]\<rparr>
     = Ok (VInt 2)
   \<and> QueryAsNumberOrZero
       \<lparr>asts = [NameIndexer (runes ''test''), FunctionOperand (runes ''length'')]\<rparr>
       \<lparr>ptyp = Type_Object,
        pvalue = VMap [runes ''test'' \<mapsto> VSlice [VFloat64 (1 :: real), VFloat64 10]]\<rparr>
     = Ok 0"
proof -
  have h: "Query \<lparr>asts = [NameIndexer (runes ''test'')]\<rparr>
      \<lparr>ptyp = Type_Object,
       pvalue = VMap [runes ''test'' \<mapsto> VSlice [VFloat64 (1 :: real), VFloat64 10]]\<rparr>
      = Ok (VSlice [VFloat64 1, VFloat64 10])"
    by (simp add: query_eval)
  show ?thesis
    using QueryAsNumberOrZero_length_is_zero [OF h] by simp
qed

end
